theory Spec2Isabelle
  imports Main "HOL-Library.Char_ord" "HOL-Library.List_Lexorder" "HOL-Library.Multiset"
    "HOL-Library.Sublist"
begin

section \<open>Strings\<close>

text \<open>
  A Go \<^verbatim>\<open>string\<close> is a sequence of bytes: \<^verbatim>\<open>len\<close>, indexing, slicing and
  \<^verbatim>\<open>strings.IndexByte\<close> count bytes, and \<^verbatim>\<open><\<close> compares byte-wise. It is modelled as
  \<^typ>\<open>string\<close> (a list of 8-bit \<^typ>\<open>char\<close>), ordered lexicographically; a character
  outside ASCII is the several bytes of its UTF-8 encoding.
\<close>

definition isDigit :: "char \<Rightarrow> bool" where
  \<comment> \<open>\<^verbatim>\<open>'0' <= c && c <= '9'\<close>\<close>
  "isDigit c \<longleftrightarrow> CHR ''0'' \<le> c \<and> c \<le> CHR ''9''"

fun IndexByte :: "string \<Rightarrow> char \<Rightarrow> int" where
  \<comment> \<open>\<^verbatim>\<open>strings.IndexByte\<close>: the index of the first occurrence, -1 when there is none.\<close>
  "IndexByte [] c = -1"
| "IndexByte (x # xs) c =
     (if x = c then 0 else (let i = IndexByte xs c in if i < 0 then -1 else i + 1))"

fun Contains :: "string \<Rightarrow> string \<Rightarrow> bool" where
  \<comment> \<open>\<^verbatim>\<open>strings.Contains\<close> / \<^verbatim>\<open>bytes.Contains\<close>: \<open>sub\<close> occurs somewhere in \<open>s\<close>.\<close>
  "Contains [] sub = (sub = [])"
| "Contains (x # xs) sub = (prefix sub (x # xs) \<or> Contains xs sub)"

definition ReplaceAll_NUL :: "string \<Rightarrow> string" where
  \<comment> \<open>\<^verbatim>\<open>strings.ReplaceAll(s, "\x00", "")\<close>: every NUL byte is removed.\<close>
  "ReplaceAll_NUL s = filter (\<lambda>c. c \<noteq> CHR 0x00) s"

subsection \<open>\<^verbatim>\<open>strings.TrimSpace\<close>\<close>

text \<open>
  \<^verbatim>\<open>strings.TrimSpace\<close> removes leading and trailing white space "as defined by Unicode":
  it decodes the string rune by rune from the left, then from the right, and drops every
  rune for which \<^verbatim>\<open>unicode.IsSpace\<close> holds. A byte sequence decodes to a white-space rune
  exactly when it is that rune's (shortest-form) UTF-8 encoding; an invalid byte decodes
  to U+FFFD, which is not white space. So trimming is: while the string starts (ends)
  with one of the encodings below, drop it. The table lists the 25 code points of
  \<^verbatim>\<open>unicode.IsSpace\<close>: tab, LF, VT, FF, CR, space, U+0085, U+00A0, U+1680,
  U+2000..U+200A, U+2028, U+2029, U+202F, U+205F, U+3000.
\<close>

definition whiteSpace :: "string list" where
  "whiteSpace =
    [[CHR 0x09], [CHR 0x0A], [CHR 0x0B], [CHR 0x0C], [CHR 0x0D], [CHR 0x20],
     [CHR 0xC2, CHR 0x85], [CHR 0xC2, CHR 0xA0],
     [CHR 0xE1, CHR 0x9A, CHR 0x80],
     [CHR 0xE2, CHR 0x80, CHR 0x80], [CHR 0xE2, CHR 0x80, CHR 0x81],
     [CHR 0xE2, CHR 0x80, CHR 0x82], [CHR 0xE2, CHR 0x80, CHR 0x83],
     [CHR 0xE2, CHR 0x80, CHR 0x84], [CHR 0xE2, CHR 0x80, CHR 0x85],
     [CHR 0xE2, CHR 0x80, CHR 0x86], [CHR 0xE2, CHR 0x80, CHR 0x87],
     [CHR 0xE2, CHR 0x80, CHR 0x88], [CHR 0xE2, CHR 0x80, CHR 0x89],
     [CHR 0xE2, CHR 0x80, CHR 0x8A],
     [CHR 0xE2, CHR 0x80, CHR 0xA8], [CHR 0xE2, CHR 0x80, CHR 0xA9],
     [CHR 0xE2, CHR 0x80, CHR 0xAF],
     [CHR 0xE2, CHR 0x81, CHR 0x9F],
     [CHR 0xE3, CHR 0x80, CHR 0x80]]"

definition leading :: "string list \<Rightarrow> string \<Rightarrow> string option" where
  \<comment> \<open>the first non-empty entry of the table that the string starts with\<close>
  "leading tab s = find (\<lambda>e. e \<noteq> [] \<and> prefix e s) tab"

function stripLeading :: "string list \<Rightarrow> string \<Rightarrow> string" where
  "stripLeading tab s =
     (case leading tab s of None \<Rightarrow> s | Some e \<Rightarrow> stripLeading tab (drop (length e) s))"
  by pat_completeness auto
termination
proof (relation "measure (\<lambda>(tab, s). length s)")
  show "wf (measure (\<lambda>(tab, s). length s))" by simp
next
  fix tab :: "string list" and s e :: string
  assume "leading tab s = Some e"
  then have "e \<noteq> []" and "prefix e s"
    by (auto simp: leading_def find_Some_iff)
  then show "((tab, drop (length e) s), (tab, s)) \<in> measure (\<lambda>(tab, s). length s)"
    by (cases s) (auto simp: prefix_def)
qed

declare stripLeading.simps [simp del]

definition TrimLeftSpace :: "string \<Rightarrow> string" where
  "TrimLeftSpace s = stripLeading whiteSpace s"

definition TrimRightSpace :: "string \<Rightarrow> string" where
  \<comment> \<open>the same from the right end: the table and the string are read backwards\<close>
  "TrimRightSpace s = rev (stripLeading (map rev whiteSpace) (rev s))"

definition TrimSpace :: "string \<Rightarrow> string" where
  "TrimSpace s = TrimRightSpace (TrimLeftSpace s)"

section \<open>Records and their normalization\<close>

record Hitelezo =
  Bankszerv :: string
  BIC :: string
  Nev :: string
  Irszam :: string
  Cim :: string

definition Hitelezo_zero :: Hitelezo where
  \<comment> \<open>\<^verbatim>\<open>Hitelezo{}\<close>\<close>
  "Hitelezo_zero = \<lparr>Bankszerv = [], BIC = [], Nev = [], Irszam = [], Cim = []\<rparr>"

definition checkAppend_norm :: "Hitelezo \<Rightarrow> Hitelezo" where
  \<comment> \<open>The first part of \<^verbatim>\<open>checkAppend\<close>, on its private copy of the record: the four
     fields are cleaned, then a postal code is split off the address. The digit test
     of the source runs over the runes of \<^verbatim>\<open>rec.Cim[:4]\<close>; a byte outside ASCII never
     decodes to a digit, so it is the test that all four bytes are ASCII digits.\<close>
  "checkAppend_norm r =
    (let rec = r\<lparr>Bankszerv := TrimSpace (ReplaceAll_NUL (Bankszerv r)),
                 Nev := TrimSpace (ReplaceAll_NUL (Nev r)),
                 Irszam := TrimSpace (ReplaceAll_NUL (Irszam r)),
                 Cim := TrimSpace (ReplaceAll_NUL (Cim r))\<rparr>
     in if Irszam rec = [] \<and> length (Cim rec) > 5
        then (if IndexByte (Cim rec) CHR '' '' = 4 \<and> list_all isDigit (take 4 (Cim rec))
              then rec\<lparr>Irszam := take 4 (Cim rec), Cim := drop 5 (Cim rec)\<rparr>
              else rec)
        else rec)"

definition checkAppend :: "Hitelezo list \<Rightarrow> Hitelezo \<Rightarrow> Hitelezo list" where
  "checkAppend records r =
    (let rec = checkAppend_norm r
     in if rec \<noteq> Hitelezo_zero \<and> length (Bankszerv rec) = 8 then records @ [rec]
        else records)"

section \<open>Reconstructing rows from extracted text\<close>

text \<open>
  \<^verbatim>\<open>parseTXT\<close> reads its input through a \<^verbatim>\<open>bufio.Scanner\<close> with the default split
  function \<^verbatim>\<open>ScanLines\<close>: a token ends at a line feed, one trailing carriage return is
  dropped, a last line without line feed is a token when it is not empty, and the scan
  stops (with \<^verbatim>\<open>ErrTooLong\<close>, which \<^verbatim>\<open>parseTXT\<close> never looks at) as soon as
  65536 bytes hold no complete token. \<open>scanLines cur s\<close> lists the tokens of \<open>s\<close>,
  \<open>cur\<close> being the part of the current line already read.
\<close>

definition dropCR :: "string \<Rightarrow> string" where
  "dropCR s = (if s \<noteq> [] \<and> last s = CHR 0x0D then butlast s else s)"

fun scanLines :: "string \<Rightarrow> string \<Rightarrow> string list" where
  "scanLines cur [] = (if cur = [] then [] else [dropCR cur])"
| "scanLines cur (c # cs) =
     (if c = CHR 0x0A then dropCR cur # scanLines [] cs
      else if 65536 \<le> length cur + 1 then []
      else scanLines (cur @ [c]) cs)"

definition processLines :: "string list \<Rightarrow> Hitelezo list \<Rightarrow> Hitelezo list"
  where
  \<comment> \<open>The closure \<^verbatim>\<open>processLines\<close>: the buffered lines are four columns of
     \<open>cols\<close> lines each. Every index \<open>k * cols + i\<close> with \<open>k < 4\<close> and \<open>i < cols\<close> is
     below \<open>4 * cols \<le> length lines\<close>, so no access is out of range. The caller
     empties the buffer.\<close>
  "processLines lines records =
    (let cols = length lines div 4
     in foldl (\<lambda>records i.
          checkAppend records
            \<lparr>Bankszerv = lines ! (0 * cols + i), BIC = [], Nev = lines ! (1 * cols + i),
             Irszam = lines ! (2 * cols + i), Cim = lines ! (3 * cols + i)\<rparr>)
        records [0..<cols])"

fun parseTXT_loop ::
  "bool \<Rightarrow> string list \<Rightarrow> Hitelezo list \<Rightarrow> string list \<Rightarrow> string list \<times> Hitelezo list"
  where
  \<comment> \<open>The \<^verbatim>\<open>for scanner.Scan()\<close> loop over the remaining tokens, with the variables
     \<^verbatim>\<open>numberSeen\<close>, \<^verbatim>\<open>lines\<close> and \<^verbatim>\<open>records\<close>; the result is the state the loop is
     left in. Byte 12 is the form feed.\<close>
  "parseTXT_loop numberSeen lines records [] = (lines, records)"
| "parseTXT_loop numberSeen lines records (line # rest) =
    (case line of
       [] \<Rightarrow> parseTXT_loop numberSeen lines records rest
     | c # cs \<Rightarrow>
        if \<not> numberSeen \<and> \<not> isDigit c then parseTXT_loop False lines records rest
        else if Contains line ''nyes Egyszer'' \<or> suffix '' oldal'' line
          then parseTXT_loop True lines records rest
        else if c = CHR 0x0C
          then (if cs = [] then ([], processLines lines records)
                else parseTXT_loop True [TrimSpace line] (processLines lines records) rest)
        else parseTXT_loop True (lines @ [TrimSpace line]) records rest)"

text \<open>
  Errors are values. \<open>ErrNotFound\<close> and \<open>EOF\<close> are the sentinels \<^verbatim>\<open>ErrNotFound\<close> and
  \<^verbatim>\<open>io.EOF\<close>; \<open>Opaque msg\<close> is an error of a library or of the operating system, known
  by its message; \<open>Wrap msg es\<close> is what \<^verbatim>\<open>fmt.Errorf\<close> builds with \<^verbatim>\<open>%w\<close> (the
  formatted message and the wrapped errors); \<open>Joined es\<close> is what \<^verbatim>\<open>errors.Join\<close> builds.
\<close>

datatype error = ErrNotFound | EOF | Opaque string | Wrap string "error list"
  | Joined "error list"

definition parseTXT :: "string \<Rightarrow> Hitelezo list \<times> error option" where
  "parseTXT r =
    (let (lines, records) = parseTXT_loop False [] [] (scanLines [] r)
     in (processLines lines records, None))"

section \<open>The parsers\<close>

text \<open>
  A parser returns \<^verbatim>\<open>([]Hitelezo, error)\<close>, where both components can carry
  something (records read so far and the error that stopped the reading), or it panics
  on an index out of range. A nil slice is the empty list.
\<close>

datatype result = Panic | Return "Hitelezo list" "error option"

definition joinWith :: "string \<Rightarrow> string list \<Rightarrow> string" where
  \<comment> \<open>\<^verbatim>\<open>strings.Join(elems, sep)\<close>\<close>
  "joinWith sep elems = (case elems of [] \<Rightarrow> [] | e # es \<Rightarrow> foldl (\<lambda>acc x. acc @ sep @ x) e es)"

fun Error :: "error \<Rightarrow> string" where
  \<comment> \<open>the method \<^verbatim>\<open>Error()\<close>: the message\<close>
  "Error ErrNotFound = ''not found''"
| "Error EOF = ''EOF''"
| "Error (Opaque msg) = msg"
| "Error (Wrap msg es) = msg"
| "Error (Joined es) = joinWith [CHR 0x0A] (map Error es)"

text \<open>
  The context: \<open>ctxDone ctx k\<close> tells whether \<^verbatim>\<open>ctx.Done()\<close> is already closed when
  the running loop polls it for the \<open>k\<close>-th time (counting from 0), and \<open>ctxErr ctx\<close>
  is what \<^verbatim>\<open>ctx.Err()\<close> returns then.
\<close>

record ctx =
  ctxDone :: "nat \<Rightarrow> bool"
  ctxErr :: error

subsection \<open>PDF through the table extraction tool\<close>

text \<open>
  What running the tool gives \<^verbatim>\<open>parsePDFTabula\<close>. \<open>TabulaNotRun e\<close>: one of the steps
  before the reading loop failed (temporary directory, jar file, temporary PDF, copy,
  seek, pipe, start); each returns \<^verbatim>\<open>nil\<close> and its wrapped error \<open>e\<close>.
  \<open>TabulaCSV rows readErr waitErr\<close>: \<^verbatim>\<open>cr.Read()\<close> returned the records \<open>rows\<close> without
  error, and then \<^verbatim>\<open>io.EOF\<close> (\<open>readErr = None\<close>) or the error \<open>readErr\<close>;
  \<open>waitErr\<close> is the result of \<^verbatim>\<open>cmd.Wait()\<close>.
\<close>

datatype tabula_run =
    TabulaNotRun error
  | TabulaCSV "string list list" "error option" "error option"

fun parsePDFTabula_rows :: "Hitelezo list \<Rightarrow> string list list \<Rightarrow> Hitelezo list option"
  where
  \<comment> \<open>The appends of the reading loop; \<open>None\<close> is the panic of \<^verbatim>\<open>row[0]\<close>, ...,
     \<^verbatim>\<open>row[3]\<close> on a record with fewer than four fields.\<close>
  "parsePDFTabula_rows hit [] = Some hit"
| "parsePDFTabula_rows hit (row # rows) =
     (if length row < 4 then None
      else parsePDFTabula_rows
        (hit @ [\<lparr>Bankszerv = row ! 0, BIC = [], Nev = row ! 1, Irszam = row ! 2,
                 Cim = row ! 3\<rparr>]) rows)"

definition parsePDFTabula :: "tabula_run \<Rightarrow> result" where
  "parsePDFTabula run =
    (case run of
       TabulaNotRun e \<Rightarrow> Return [] (Some e)
     | TabulaCSV rows readErr waitErr \<Rightarrow>
        (case parsePDFTabula_rows [] rows of
           None \<Rightarrow> Panic
         | Some hit \<Rightarrow>
            (case readErr of
               Some e \<Rightarrow> Return hit (Some (Wrap (''read csv: '' @ Error e) [e]))
             | None \<Rightarrow> Return hit waitErr)))"

subsection \<open>PDF through the text extraction tool\<close>

text \<open>
  What running \<^verbatim>\<open>pdftotext - -\<close> gives \<^verbatim>\<open>parsePDFPdfToText\<close>. \<open>PdfToTextNotRun e\<close>: the
  pipe or the start failed, \<^verbatim>\<open>nil\<close> and \<open>e\<close> are returned. \<open>PdfToTextOutput out waitErr\<close>:
  the tool wrote \<open>out\<close> to its standard output, and \<^verbatim>\<open>cmd.Wait()\<close> returned \<open>waitErr\<close>.
\<close>

datatype pdftotext_run =
    PdfToTextNotRun error
  | PdfToTextOutput string "error option"

definition parsePDFPdfToText :: "pdftotext_run \<Rightarrow> result" where
  "parsePDFPdfToText run =
    (case run of
       PdfToTextNotRun e \<Rightarrow> Return [] (Some e)
     | PdfToTextOutput out waitErr \<Rightarrow>
        (let (hit, err) = parseTXT out
         in case waitErr of
              None \<Rightarrow> Return hit err
            | Some w \<Rightarrow>
               if err = None then Return hit (Some (Wrap (''[pdftotext - -]: '' @ Error w) [w]))
               else Return hit err))"

subsection \<open>The modern spreadsheet\<close>

text \<open>
  What the spreadsheet library gives \<^verbatim>\<open>ParseXLSX\<close>: \<^verbatim>\<open>excelize.OpenReader\<close> fails, or
  \<^verbatim>\<open>wb.Rows\<close> of the first sheet fails, or the sheet is iterated: one entry for every
  \<^verbatim>\<open>rows.Next()\<close> that is true, holding what \<^verbatim>\<open>rows.Columns()\<close> returns then (an error
  or the cells of the row).
\<close>

datatype xlsx_file =
    XlsxOpenError error
  | XlsxRowsError error
  | XlsxRows "(error + string list) list"

fun ParseXLSX_rows ::
  "ctx \<Rightarrow> nat \<Rightarrow> bool \<Rightarrow> bool \<Rightarrow> Hitelezo \<Rightarrow> Hitelezo list \<Rightarrow> (error + string list) list \<Rightarrow> result"
  where
  \<comment> \<open>The \<^verbatim>\<open>for rows.Next()\<close> loop with its variables \<^verbatim>\<open>headerSkipped\<close>, \<^verbatim>\<open>noIrszam\<close>,
     \<^verbatim>\<open>rec\<close> and \<^verbatim>\<open>records\<close>; \<open>k\<close> counts the polls of the context. The slice \<^verbatim>\<open>dst\<close>
     is (Bankszerv, BIC, Nev, Cim) when \<^verbatim>\<open>noIrszam\<close> is set and (Bankszerv, Nev, Irszam,
     Cim) otherwise; \<^verbatim>\<open>row[3]\<close> of the header and \<^verbatim>\<open>row[j]\<close>, \<open>j < 4\<close>, of the other
     rows panic on a row with fewer than four cells.\<close>
  "ParseXLSX_rows c k headerSkipped noIrszam rec records [] = Return records None"
| "ParseXLSX_rows c k headerSkipped noIrszam rec records (x # rows) =
    (case x of
       Inl e \<Rightarrow> Return records None
     | Inr row \<Rightarrow>
        if \<not> headerSkipped then
          (if length row \<le> 3 then Panic
           else ParseXLSX_rows c k True (row ! 3 = ''Address of the branch office'') rec
                  records rows)
        else if length row < 4 then Panic
        else
          (let rec' = (if noIrszam
                       then rec\<lparr>Bankszerv := row ! 0, BIC := row ! 1, Nev := row ! 2,
                                Cim := row ! 3\<rparr>
                       else rec\<lparr>Bankszerv := row ! 0, Nev := row ! 1, Irszam := row ! 2,
                                Cim := row ! 3\<rparr>);
               records' = checkAppend records rec'
           in if ctxDone c k then Return records' (Some (ctxErr c))
              else ParseXLSX_rows c (Suc k) True noIrszam rec' records' rows))"

definition ParseXLSX :: "ctx \<Rightarrow> xlsx_file \<Rightarrow> result" where
  "ParseXLSX c wb =
    (case wb of
       XlsxOpenError e \<Rightarrow> Return [] (Some e)
     | XlsxRowsError e \<Rightarrow> Return [] (Some e)
     | XlsxRows rows \<Rightarrow> ParseXLSX_rows c 0 False False Hitelezo_zero [] rows)"

subsection \<open>The legacy spreadsheet\<close>

text \<open>
  What the legacy library gives \<^verbatim>\<open>ParseXLS\<close>: \<^verbatim>\<open>xls.OpenReader\<close> fails, or there is a
  workbook whose \<^verbatim>\<open>GetSheet(0)\<close> is nil or a sheet. A sheet has \<^verbatim>\<open>MaxRow\<close> and
  \<^verbatim>\<open>Row(n)\<close> (nil or a row); a row has \<^verbatim>\<open>FirstCol()\<close> and \<^verbatim>\<open>Col(i)\<close>, a string for
  every index.
\<close>

record xls_row =
  FirstCol :: int
  Col :: "int \<Rightarrow> string"

record xls_sheet =
  MaxRow :: nat
  Row :: "nat \<Rightarrow> xls_row option"

datatype xls_file =
    XlsOpenError error
  | XlsWorkbook "xls_sheet option"

fun ParseXLS_rows ::
  "ctx \<Rightarrow> nat \<Rightarrow> xls_sheet \<Rightarrow> Hitelezo \<Rightarrow> Hitelezo list \<Rightarrow> nat list \<Rightarrow> result"
  where
  \<comment> \<open>The loop \<^verbatim>\<open>for n := 0; n < int(sheet.MaxRow); n++\<close> over the remaining values of
     \<open>n\<close>, with \<^verbatim>\<open>skip = 1\<close>.\<close>
  "ParseXLS_rows c k sheet rec records [] = Return records None"
| "ParseXLS_rows c k sheet rec records (n # ns) =
    (case Row sheet n of
       None \<Rightarrow> ParseXLS_rows c k sheet rec records ns
     | Some row \<Rightarrow>
        if n < 1 then ParseXLS_rows c k sheet rec records ns
        else
          (let off = FirstCol row;
               rec' = rec\<lparr>Bankszerv := Col row (off + 0), Nev := Col row (off + 1),
                          Irszam := Col row (off + 2), Cim := Col row (off + 3)\<rparr>;
               records' = checkAppend records rec'
           in if ctxDone c k then Return records' (Some (ctxErr c))
              else ParseXLS_rows c (Suc k) sheet rec' records' ns))"

text \<open>
  \<open>ParseXLS c seekErr xlsx wb\<close>: \<open>wb\<close> is what the legacy library makes of the stream,
  \<open>xlsx\<close> what the modern one makes of it, \<open>seekErr\<close> the result of \<^verbatim>\<open>r.Seek(0, 0)\<close>.
\<close>

definition ParseXLS :: "ctx \<Rightarrow> error option \<Rightarrow> xlsx_file \<Rightarrow> xls_file \<Rightarrow> result" where
  "ParseXLS c seekErr xlsx wb =
    (case wb of
       XlsOpenError e \<Rightarrow>
        (case seekErr of Some e' \<Rightarrow> Return [] (Some e') | None \<Rightarrow> ParseXLSX c xlsx)
     | XlsWorkbook None \<Rightarrow>
        Return [] (Some (Opaque ''this XLS file does not contain sheet no 0''))
     | XlsWorkbook (Some sheet) \<Rightarrow>
        ParseXLS_rows c 0 sheet Hitelezo_zero [] [0..<MaxRow sheet])"

subsection \<open>PDF: the table tool first, the text tool as fallback\<close>

text \<open>
  The world outside the program, as far as \<^verbatim>\<open>Parse\<close> meets it: the download of the
  default spreadsheet, the temporary file of \<^verbatim>\<open>iohlp.MakeSectionReader\<close>, the two
  extraction tools and the two spreadsheet libraries (each a function of the bytes it is
  given), and the context. A \<open>reader\<close> is an \<^verbatim>\<open>io.Reader\<close>: the bytes it delivers and
  the error it ends with (\<open>None\<close> for \<^verbatim>\<open>io.EOF\<close>). \<open>spill\<close> is the error of
  creating, writing or mapping the temporary file, if there is one, and \<open>spillRead e\<close>
  is what the library returns when the stream fails with \<open>e\<close> while it is copied into
  that file.
\<close>

datatype reader = Reader string "error option"

record env =
  download :: "error + reader"
  spill :: "error option"
  spillRead :: "error \<Rightarrow> error"
  tabula :: "string \<Rightarrow> tabula_run"
  pdftotext :: "string \<Rightarrow> pdftotext_run"
  excelize :: "string \<Rightarrow> xlsx_file"
  xls :: "string \<Rightarrow> xls_file"
  cx :: ctx

definition ParsePDF :: "env \<Rightarrow> string \<Rightarrow> result" where
  \<comment> \<open>The tee and the multi-reader hand the text tool the whole stream again.\<close>
  "ParsePDF env r =
    (case parsePDFTabula (tabula env r) of
       Panic \<Rightarrow> Panic
     | Return hit err \<Rightarrow>
        if err = None then Return hit None else parsePDFPdfToText (pdftotext env r))"

subsection \<open>\<^verbatim>\<open>Parse\<close>\<close>

definition MakeSectionReader :: "env \<Rightarrow> reader \<Rightarrow> nat \<Rightarrow> error + string" where
  \<comment> \<open>\<^verbatim>\<open>iohlp.MakeSectionReader\<close> drains the reader, into memory up to the threshold and
     into a temporary file beyond it, and returns an \<^verbatim>\<open>io.SectionReader\<close> over all the
     bytes. A stream that fails before it has delivered more than \<open>threshold\<close> bytes
     fails the first read, and its error comes back wrapped with the message
     \<^verbatim>\<open>read below threshold: ...\<close>.\<close>
  "MakeSectionReader env r threshold =
    (case r of
       Reader bs fin \<Rightarrow>
        if length bs \<le> threshold
        then (case fin of
                Some e \<Rightarrow> Inl (Wrap (''read below threshold: '' @ Error e) [e])
              | None \<Rightarrow> Inr bs)
        else (case fin of
                Some e \<Rightarrow> Inl (spillRead env e)
              | None \<Rightarrow> (case spill env of Some e \<Rightarrow> Inl e | None \<Rightarrow> Inr bs)))"

definition ReadAt :: "string \<Rightarrow> nat \<Rightarrow> nat \<Rightarrow> string \<times> error option" where
  \<comment> \<open>\<^verbatim>\<open>sr.ReadAt(p, off)\<close> with \<open>len(p) = n\<close>: the bytes read, and \<^verbatim>\<open>io.EOF\<close> when they
     are fewer than \<open>n\<close>.\<close>
  "ReadAt sr n off =
    (let b = take n (drop off sr) in (b, if length b < n then Some EOF else None))"

definition invalid :: "Hitelezo \<Rightarrow> bool" where
  \<comment> \<open>the test of the cleanup loop\<close>
  "invalid h \<longleftrightarrow> Bankszerv h = [] \<or> Nev h = [] \<or> (Irszam h = [] \<and> Cim h = [])"

function cleanup :: "nat \<Rightarrow> Hitelezo list \<Rightarrow> Hitelezo list" where
  \<comment> \<open>The loop \<^verbatim>\<open>for i := 0; i < len(hit); i++\<close> from the value \<open>i\<close> on: an invalid
     \<^verbatim>\<open>hit[i]\<close> is overwritten by the last record, the slice loses its last element,
     and the same index is looked at again.\<close>
  "cleanup i hit =
    (if i < length hit
     then (if invalid (hit ! i) then cleanup i (butlast (hit[i := last hit]))
           else cleanup (Suc i) hit)
     else hit)"
  by pat_completeness auto
termination
  by (relation "measure (\<lambda>(i, hit). length hit - i)") auto

declare cleanup.simps [simp del]

definition Parse_source :: "env \<Rightarrow> reader option \<Rightarrow> error + reader" where
  \<comment> \<open>a nil reader stands for the download of \<^verbatim>\<open>DefaultXLSXURL\<close>\<close>
  "Parse_source env r = (case r of None \<Rightarrow> download env | Some rd \<Rightarrow> Inr rd)"

definition Parse_fallback :: "error option \<Rightarrow> bool" where
  \<comment> \<open>the test that sends the stream to \<^verbatim>\<open>ParseXLS\<close>\<close>
  "Parse_fallback err =
    (case err of
       None \<Rightarrow> False
     | Some e \<Rightarrow> Contains (Error e) ''not a valid zip'' \<or> Contains (Error e) ''unsupported'')"

definition Parse_spreadsheet :: "env \<Rightarrow> string \<Rightarrow> result" where
  \<comment> \<open>\<^verbatim>\<open>ParseXLSX\<close> and, on one of the two errors, \<^verbatim>\<open>ParseXLS\<close> on the same section
     reader, whose \<^verbatim>\<open>Seek(0, 0)\<close> cannot fail.\<close>
  "Parse_spreadsheet env sr =
    (case ParseXLSX (cx env) (excelize env sr) of
       Panic \<Rightarrow> Panic
     | Return hit err \<Rightarrow>
        if Parse_fallback err then ParseXLS (cx env) None (excelize env sr) (xls env sr)
        else Return hit err)"

text \<open>
  The head of \<^verbatim>\<open>Parse\<close>, up to the test of the prefix: the stream is refused with an
  error, or it goes to \<^verbatim>\<open>ParsePDF\<close>, or to the spreadsheet parsers. At the test
  \<^verbatim>\<open>b\<close> is the first 1024 bytes of the stream.
\<close>

datatype route = Refused error | ToPDF string | ToSpreadsheet string

definition Parse_route :: "env \<Rightarrow> reader option \<Rightarrow> route" where
  "Parse_route env r =
    (case Parse_source env r of
       Inl e \<Rightarrow> Refused e
     | Inr rd \<Rightarrow>
        (case MakeSectionReader env rd (2 ^ 20) of
           Inl e \<Rightarrow> Refused e
         | Inr sr \<Rightarrow>
            (case ReadAt sr 1024 0 of
               (b, Some e) \<Rightarrow> Refused e
             | (b, None) \<Rightarrow> if prefix ''%PDF-1'' b then ToPDF sr else ToSpreadsheet sr)))"

definition Parse :: "env \<Rightarrow> reader option \<Rightarrow> result" where
  "Parse env r =
    (case Parse_route env r of
       Refused e \<Rightarrow> Return [] (Some e)
     | ToPDF sr \<Rightarrow> ParsePDF env sr
     | ToSpreadsheet sr \<Rightarrow>
        (case Parse_spreadsheet env sr of
           Panic \<Rightarrow> Panic
         | Return hit err \<Rightarrow> Return (cleanup 0 hit) err))"

section \<open>The filename pattern\<close>

text \<open>
  A pattern is compiled by \<^verbatim>\<open>regexp.MustCompile\<close> and used by \<^verbatim>\<open>MatchString\<close>. The
  patterns of this program have the form \<^verbatim>\<open>^(r)$\<close>; without the multi-line flag the two
  anchors stand for the two ends of the string, so the string matches when the whole of
  it is in the language of \<open>r\<close>. A pattern is modelled by this \<open>r\<close>, a regular
  expression over bytes, and \<open>MatchString\<close> decides the whole-string match by
  derivatives. \<open>Dot\<close> is \<^verbatim>\<open>.\<close>, any character but the line feed; the other atoms of
  \<open>DefaultPattern\<close> are ASCII, and no ASCII byte occurs inside the encoding of another
  character, so matching bytes and matching runes agree.
\<close>

datatype regex = Never | Empty | Atom "char \<Rightarrow> bool" | Seq regex regex | Alt regex regex
  | Star regex

fun nullable :: "regex \<Rightarrow> bool" where
  "nullable Never = False"
| "nullable Empty = True"
| "nullable (Atom p) = False"
| "nullable (Seq r s) = (nullable r \<and> nullable s)"
| "nullable (Alt r s) = (nullable r \<or> nullable s)"
| "nullable (Star r) = True"

fun deriv :: "char \<Rightarrow> regex \<Rightarrow> regex" where
  "deriv c Never = Never"
| "deriv c Empty = Never"
| "deriv c (Atom p) = (if p c then Empty else Never)"
| "deriv c (Seq r s) =
     (if nullable r then Alt (Seq (deriv c r) s) (deriv c s) else Seq (deriv c r) s)"
| "deriv c (Alt r s) = Alt (deriv c r) (deriv c s)"
| "deriv c (Star r) = Seq (deriv c r) (Star r)"

definition MatchString :: "regex \<Rightarrow> string \<Rightarrow> bool" where
  "MatchString r s = nullable (foldl (\<lambda>r c. deriv c r) r s)"

text \<open>The notation of the pattern: \<^verbatim>\<open>c\<close>, \<^verbatim>\<open>.\<close>, \<^verbatim>\<open>[0-9]\<close>, \<^verbatim>\<open>[...]\<close>, \<^verbatim>\<open>r?\<close>, a literal
  string, and \<^verbatim>\<open>r{n}\<close>.\<close>

definition Lit :: "char \<Rightarrow> regex" where "Lit c = Atom (\<lambda>x. x = c)"

definition Dot :: regex where "Dot = Atom (\<lambda>x. x \<noteq> CHR 0x0A)"

definition Digit :: regex where "Digit = Atom isDigit"

definition OneOf :: "string \<Rightarrow> regex" where "OneOf cs = Atom (\<lambda>x. x \<in> set cs)"

definition Opt :: "regex \<Rightarrow> regex" where "Opt r = Alt r Empty"

fun Str :: "string \<Rightarrow> regex" where
  "Str [] = Empty"
| "Str (c # cs) = Seq (Lit c) (Str cs)"

fun Times :: "nat \<Rightarrow> regex \<Rightarrow> regex" where
  "Times 0 r = Empty"
| "Times (Suc n) r = Seq r (Times n r)"

text \<open>
  \<^verbatim>\<open>DefaultPattern\<close> is
  \<^verbatim>\<open>^(.*-xls-.*$|EHT_([0-9]{8}|[0-9]{4}[_-][0-9]{2}[_-][0-9]{2}|2[0-9]{5})\.(pdf|xlsx?)|AVT_[0-9]{2}_[0-9]{2}_2[0-9]{3}\.(pdf|xlsx?))$\<close>:
  three alternatives between the anchors, here \<open>xlsName\<close>, \<open>ehtName\<close> and \<open>avtName\<close>;
  \<open>ext\<close> is \<^verbatim>\<open>(pdf|xlsx?)\<close> and \<open>ehtDate\<close> the group after \<^verbatim>\<open>EHT_\<close>.
\<close>

definition ext :: regex where
  "ext = Alt (Str ''pdf'') (Seq (Str ''xls'') (Opt (Lit CHR ''x'')))"

definition xlsName :: regex where
  "xlsName = Seq (Star Dot) (Seq (Str ''-xls-'') (Star Dot))"

definition ehtDate :: regex where
  "ehtDate =
    Alt (Times 8 Digit)
   (Alt (Seq (Times 4 Digit) (Seq (OneOf ''_-'') (Seq (Times 2 Digit)
          (Seq (OneOf ''_-'') (Times 2 Digit)))))
        (Seq (Lit CHR ''2'') (Times 5 Digit)))"

definition ehtName :: regex where
  "ehtName = Seq (Str ''EHT_'') (Seq ehtDate (Seq (Lit CHR ''.'') ext))"

definition avtName :: regex where
  "avtName =
    Seq (Str ''AVT_'') (Seq (Times 2 Digit) (Seq (Lit CHR ''_'') (Seq (Times 2 Digit)
      (Seq (Lit CHR ''_'') (Seq (Lit CHR ''2'') (Seq (Times 3 Digit)
        (Seq (Lit CHR ''.'') ext)))))))"

definition DefaultPattern :: regex where
  "DefaultPattern = Alt xlsName (Alt ehtName avtName)"

section \<open>Locating the document\<close>

definition DefaultXLSXURL :: string where
  "DefaultXLSXURL = ''https://www.mnb.hu/letoltes/sht.xlsx''"

definition DefaultURL :: string where
  "DefaultURL = ''https://www.giro.hu/dokumentumok''"

text \<open>\<^verbatim>\<open>path.Base\<close>: the last element of the path, after the trailing slashes are
  dropped; \<^verbatim>\<open>.\<close> for the empty path and \<^verbatim>\<open>/\<close> for a path of slashes only.\<close>

definition Base :: "string \<Rightarrow> string" where
  "Base p =
    (if p = [] then ''.''
     else (let p1 = rev (dropWhile (\<lambda>c. c = CHR ''/'') (rev p));
               p2 = rev (takeWhile (\<lambda>c. c \<noteq> CHR ''/'') (rev p1))
           in if p2 = [] then ''/'' else p2))"

text \<open>
  \<^verbatim>\<open>errors.Join\<close> returns nil when it is given no error. \<^verbatim>\<open>fmt.Errorf("%w: %w", a, b)\<close>
  wraps both operands; a nil operand is printed as a bad verb and not wrapped.
  \<^verbatim>\<open>errors.Is\<close> looks for the target in the tree of wrapped errors; the identity of an
  error value is modelled by equality.
\<close>

definition errors_Join :: "error list \<Rightarrow> error option" where
  "errors_Join es = (if es = [] then None else Some (Joined es))"

definition Errorf_w_w :: "error \<Rightarrow> error option \<Rightarrow> error" where
  "Errorf_w_w a b =
    (case b of
       None \<Rightarrow> Wrap (Error a @ '': %!w(<nil>)'') [a]
     | Some e \<Rightarrow> Wrap (Error a @ '': '' @ Error e) [a, e])"


text \<open>
  The index page as the tokenizer delivers it. Only start tags matter: \<open>StartTag name
  attrs\<close> carries the tag name and the attributes in their order. \<open>hrefs\<close> lists the
  candidates one token adds: the values of the \<^verbatim>\<open>href\<close> attributes of an \<^verbatim>\<open>a\<close> tag
  that contain \<^verbatim>\<open>/documents/\<close> and no space.
\<close>

datatype token = StartTag string "(string \<times> string) list" | OtherToken

definition hrefs :: "token \<Rightarrow> string list" where
  "hrefs t =
    (case t of
       OtherToken \<Rightarrow> []
     | StartTag name attrs \<Rightarrow>
        if attrs \<noteq> [] \<and> name = ''a''
        then [v. (k, v) \<leftarrow> attrs, k = ''href'',
                 Contains v ''/documents/'' \<and> IndexByte v CHR '' '' < 0]
        else [])"

text \<open>
  \<open>PageFailed e\<close>: the request for the index page could not be built or sent, or the
  status was above 399; \<open>e\<close> is the error returned. \<open>PageTokens toks err\<close>: the tokens
  read before the tokenizer stopped, with \<^verbatim>\<open>io.EOF\<close> (\<open>None\<close>) or with another error.
\<close>

datatype page_result = PageFailed error | PageTokens "token list" "error option"

text \<open>
  What one task of the group meets when it resolves its candidate. \<open>NotTried\<close>: the
  candidate does not parse as a URL or is not absolute, the task returns nil.
  \<open>NoRequest e\<close>: \<^verbatim>\<open>http.NewRequest\<close> fails, the task returns the wrapped error \<open>e\<close>.
  \<open>NoResponse es\<close>: every attempt failed, with the wrapped errors \<open>es\<close>, until the
  retry strategy or the context ended the loop. \<open>Response es status loc\<close>: after the
  failed attempts \<open>es\<close> a response arrived with this status code and this
  \<^verbatim>\<open>Location\<close> header (empty when there is none).
\<close>

datatype probe_result =
    NotTried
  | NoRequest error
  | NoResponse "error list"
  | Response "error list" nat string

text \<open>
  \<^verbatim>\<open>resultsCh\<close> is a channel with room for 1024 strings that nobody receives from
  before all tasks have finished; the send under \<^verbatim>\<open>select\<close> with a \<^verbatim>\<open>default\<close> case
  drops the string when the channel is full.
\<close>

definition trySend :: "string list \<Rightarrow> string \<Rightarrow> string list" where
  "trySend ch x = (if length ch < 1024 then ch @ [x] else ch)"

text \<open>
  The slice \<^verbatim>\<open>errs\<close> is shared by the tasks, up to eight of which run at the same
  time, and \<^verbatim>\<open>errs = append(errs, ...)\<close> is not synchronized: an append that
  overlaps with the append of another task can be lost (the other task writes the same
  element, or stores a slice header that does not count it). Which appends are lost is
  decided by the scheduler: \<open>lost k\<close> tells whether the \<open>k\<close>-th append of the run,
  counted from 0, is. The state of the slice is the number of appends made so far and
  the errors that are left in it. Statements about \<^verbatim>\<open>errs\<close> speak of the errors it
  holds, not of their order.
\<close>

fun appendErrs :: "(nat \<Rightarrow> bool) \<Rightarrow> nat \<times> error list \<Rightarrow> error list \<Rightarrow> nat \<times> error list"
  where
  "appendErrs lost (k, errs) [] = (k, errs)"
| "appendErrs lost (k, errs) (e # es) =
     appendErrs lost (Suc k, if lost k then errs else errs @ [e]) es"

text \<open>
  A task, as a step on the shared state: the slice \<^verbatim>\<open>errs\<close> and the content of the
  channel. Its first result is the error the task returns to the group. The sends to the
  channel are synchronized by the channel, and every task sends at most once, as its last
  action: \<open>runTasks\<close> takes the tasks in the order in which they finish, and keeps the
  first error returned, which is what \<^verbatim>\<open>grp.Wait()\<close> returns.
\<close>

fun task ::
  "(nat \<Rightarrow> bool) \<Rightarrow> regex \<Rightarrow> probe_result \<Rightarrow> (nat \<times> error list) \<times> string list \<Rightarrow>
     error option \<times> (nat \<times> error list) \<times> string list"
  where
  "task lost pat NotTried (errs, ch) = (None, errs, ch)"
| "task lost pat (NoRequest e) (errs, ch) = (Some e, errs, ch)"
| "task lost pat (NoResponse es) (errs, ch) = (None, appendErrs lost errs es, ch)"
| "task lost pat (Response es status loc) (errs, ch) =
     (None, appendErrs lost errs es,
      if status \<noteq> 302 then ch
      else (let bn = Base loc
            in if bn = [] then ch
               else if MatchString pat bn then trySend ch loc
               else ch))"

fun runTasks ::
  "(nat \<Rightarrow> bool) \<Rightarrow> regex \<Rightarrow> probe_result list \<Rightarrow>
     error option \<times> (nat \<times> error list) \<times> string list \<Rightarrow>
     error option \<times> (nat \<times> error list) \<times> string list"
  where
  "runTasks lost pat [] st = st"
| "runTasks lost pat (p # ps) (err, errs, ch) =
     (case task lost pat p (errs, ch) of
        (e, errs', ch') \<Rightarrow> runTasks lost pat ps (if err = None then e else err, errs', ch'))"

text \<open>
  The network and the scheduler, as far as \<^verbatim>\<open>SearchXLSURL\<close> meets them: the index
  page, what the task of each candidate meets, the order in which the tasks of
  the candidates finish (a rearrangement of the candidates), the appends to
  \<^verbatim>\<open>errs\<close> that are lost, and the result of
  \<^verbatim>\<open>sort.Slice\<close> with the comparison of the base names, which is some arrangement of
  the results that is sorted by that comparison (the sort is not stable).
\<close>

record web =
  page :: page_result
  probe :: "string \<Rightarrow> probe_result"
  schedule :: "string list \<Rightarrow> string list"
  lostAppend :: "nat \<Rightarrow> bool"
  sortSlice :: "string list \<Rightarrow> string list"

definition SearchXLSURL :: "web \<Rightarrow> string \<Rightarrow> regex \<Rightarrow> error + string" where
  "SearchXLSURL env searchURL pattern =
    (if searchURL = DefaultXLSXURL then Inr searchURL
     else
       (case page env of
          PageFailed e \<Rightarrow> Inl e
        | PageTokens toks (Some e) \<Rightarrow> Inl e
        | PageTokens toks None \<Rightarrow>
           (let candidates = concat (map hrefs toks)
            in case runTasks (lostAppend env) pattern
                      (map (probe env) (schedule env candidates)) (None, (0, []), []) of
                 (Some e, errs, resultsCh) \<Rightarrow> Inl e
               | (None, (k, errs), results) \<Rightarrow>
                  if length results = 0 then Inl (Errorf_w_w ErrNotFound (errors_Join errs))
                  else Inr (last (sortSlice env results)))))"

section \<open>Notions used in the statements\<close>

text \<open>The test of \<^verbatim>\<open>checkAppend\<close>, and the validity of a record in the words of the
  specification: a branch code of exactly 8 bytes, a name, and a postal code or an
  address.\<close>

definition accepted :: "Hitelezo \<Rightarrow> bool" where
  "accepted h \<longleftrightarrow> h \<noteq> Hitelezo_zero \<and> length (Bankszerv h) = 8"

definition valid_record :: "Hitelezo \<Rightarrow> bool" where
  "valid_record h \<longleftrightarrow> length (Bankszerv h) = 8 \<and> Nev h \<noteq> [] \<and> (Irszam h \<noteq> [] \<or> Cim h \<noteq> [])"

text \<open>
  A candidate qualifies when its redirect has status 302 and the base name of its
  location matches the pattern; \<open>qualifying\<close> gives the location then. \<open>probe_errors\<close>
  are the errors of the failed attempts, \<open>no_fatal\<close> says that the task returns nil,
  \<open>candidates\<close> are the links collected from the page, and \<open>sortSlice_ok\<close> is the
  contract of \<^verbatim>\<open>sort.Slice\<close>.
\<close>

definition qualifying :: "regex \<Rightarrow> probe_result \<Rightarrow> string option" where
  "qualifying pat p =
    (case p of
       Response es status loc \<Rightarrow>
         if status = 302 \<and> MatchString pat (Base loc) then Some loc else None
     | _ \<Rightarrow> None)"

definition probe_errors :: "probe_result \<Rightarrow> error list" where
  "probe_errors p = (case p of NoResponse es \<Rightarrow> es | Response es status loc \<Rightarrow> es | _ \<Rightarrow> [])"

definition no_fatal :: "probe_result \<Rightarrow> bool" where
  "no_fatal p = (case p of NoRequest e \<Rightarrow> False | _ \<Rightarrow> True)"

definition candidates :: "page_result \<Rightarrow> string list" where
  \<comment> \<open>the slice \<^verbatim>\<open>candidates\<close>; nothing is collected from a page that is not read\<close>
  "candidates pg =
    (case pg of PageFailed e \<Rightarrow> [] | PageTokens toks err \<Rightarrow> concat (map hrefs toks))"

definition sortSlice_ok :: "web \<Rightarrow> bool" where
  "sortSlice_ok env \<longleftrightarrow>
     (\<forall>xs. mset (sortSlice env xs) = mset xs \<and>
           sorted_wrt (\<lambda>a b. Base a \<le> Base b) (sortSlice env xs))"

text \<open>
  The order of the source. \<open>checkAppend_kept r\<close> is what \<^verbatim>\<open>checkAppend\<close> appends for the
  row \<open>r\<close>: its normalization, or nothing. A sequence \<open>hit\<close> returned with the error
  \<open>err\<close> is in the order of the rows \<open>src\<close> of a source when it consists of what
  \<^verbatim>\<open>checkAppend\<close> keeps of the first rows of \<open>src\<close>, one row after the other, and of
  all rows when there is no error.
\<close>

definition checkAppend_kept :: "Hitelezo \<Rightarrow> Hitelezo option" where
  "checkAppend_kept r =
    (let rec = checkAppend_norm r
     in if rec \<noteq> Hitelezo_zero \<and> length (Bankszerv rec) = 8 then Some rec else None)"

definition in_source_order :: "Hitelezo list \<Rightarrow> Hitelezo list \<Rightarrow> error option \<Rightarrow> bool" where
  "in_source_order src hit err \<longleftrightarrow>
     (\<exists>p\<in>set (prefixes src). hit = List.map_filter checkAppend_kept p) \<and>
     (err = None \<longrightarrow> hit = List.map_filter checkAppend_kept src)"

text \<open>
  The rows of each kind of source, in their order, as the record that the parser makes of
  each one before \<^verbatim>\<open>checkAppend\<close>. For the table tool: the records of the CSV output.
  For the text tool: \<open>parseTXT_pages\<close> lists the page buffers that the loop of
  \<^verbatim>\<open>parseTXT\<close> flushes, in the order of the text and with the buffer that is left at
  the end, and row \<open>i\<close> of a page is made of the \<open>i\<close>-th line of each quarter of its
  buffer. For the modern spreadsheet: the rows after the header, up to the first row that
  cannot be read, in the layout that the header selects. For the legacy spreadsheet: the
  rows \<open>1, ..., MaxRow - 1\<close> of the first sheet that are not nil.
\<close>

definition tabula_record :: "string list \<Rightarrow> Hitelezo" where
  "tabula_record row =
     \<lparr>Bankszerv = row ! 0, BIC = [], Nev = row ! 1, Irszam = row ! 2, Cim = row ! 3\<rparr>"

definition tabula_source :: "tabula_run \<Rightarrow> Hitelezo list" where
  "tabula_source run =
    (case run of
       TabulaNotRun e \<Rightarrow> []
     | TabulaCSV rows readErr waitErr \<Rightarrow> map tabula_record rows)"

definition page_records :: "string list \<Rightarrow> Hitelezo list" where
  "page_records lines =
    (let cols = length lines div 4
     in map (\<lambda>i. \<lparr>Bankszerv = lines ! (0 * cols + i), BIC = [], Nev = lines ! (1 * cols + i),
                    Irszam = lines ! (2 * cols + i), Cim = lines ! (3 * cols + i)\<rparr>)
          [0..<cols])"

fun parseTXT_pages :: "bool \<Rightarrow> string list \<Rightarrow> string list \<Rightarrow> string list list" where
  "parseTXT_pages numberSeen lines [] = [lines]"
| "parseTXT_pages numberSeen lines (line # rest) =
    (case line of
       [] \<Rightarrow> parseTXT_pages numberSeen lines rest
     | c # cs \<Rightarrow>
        if \<not> numberSeen \<and> \<not> isDigit c then parseTXT_pages False lines rest
        else if Contains line ''nyes Egyszer'' \<or> suffix '' oldal'' line
          then parseTXT_pages True lines rest
        else if c = CHR 0x0C
          then (if cs = [] then [lines]
                else lines # parseTXT_pages True [TrimSpace line] rest)
        else parseTXT_pages True (lines @ [TrimSpace line]) rest)"

definition text_source :: "pdftotext_run \<Rightarrow> Hitelezo list" where
  "text_source run =
    (case run of
       PdfToTextNotRun e \<Rightarrow> []
     | PdfToTextOutput out waitErr \<Rightarrow>
        concat (map page_records (parseTXT_pages False [] (scanLines [] out))))"

fun readable :: "(error + string list) list \<Rightarrow> string list list" where
  "readable [] = []"
| "readable (Inl e # xrows) = []"
| "readable (Inr row # xrows) = row # readable xrows"

definition xlsx_record :: "bool \<Rightarrow> string list \<Rightarrow> Hitelezo" where
  "xlsx_record noIrszam row =
    (if noIrszam
     then \<lparr>Bankszerv = row ! 0, BIC = row ! 1, Nev = row ! 2, Irszam = [], Cim = row ! 3\<rparr>
     else \<lparr>Bankszerv = row ! 0, BIC = [], Nev = row ! 1, Irszam = row ! 2, Cim = row ! 3\<rparr>)"

definition xlsx_source :: "xlsx_file \<Rightarrow> Hitelezo list" where
  "xlsx_source wb =
    (case wb of
       XlsxRows xrows \<Rightarrow>
        (case readable xrows of
           [] \<Rightarrow> []
         | header # rows \<Rightarrow>
            map (xlsx_record (header ! 3 = ''Address of the branch office'')) rows)
     | _ \<Rightarrow> [])"

definition xls_record :: "xls_row \<Rightarrow> Hitelezo" where
  "xls_record row =
     \<lparr>Bankszerv = Col row (FirstCol row + 0), BIC = [], Nev = Col row (FirstCol row + 1),
      Irszam = Col row (FirstCol row + 2), Cim = Col row (FirstCol row + 3)\<rparr>"

definition xls_rows :: "xls_sheet \<Rightarrow> nat list \<Rightarrow> Hitelezo list" where
  "xls_rows sheet ns =
     map xls_record (List.map_filter (\<lambda>n. if n < 1 then None else Row sheet n) ns)"

definition xls_source :: "xls_file \<Rightarrow> Hitelezo list" where
  "xls_source wb =
    (case wb of
       XlsWorkbook (Some sheet) \<Rightarrow> xls_rows sheet [0..<MaxRow sheet]
     | _ \<Rightarrow> [])"

text \<open>The language of a regular expression, to reason about all strings of a form.\<close>

inductive_set star :: "string set \<Rightarrow> string set" for A :: "string set" where
  star_Nil: "[] \<in> star A"
| star_app: "u \<in> A \<Longrightarrow> v \<in> star A \<Longrightarrow> u @ v \<in> star A"

definition conc :: "string set \<Rightarrow> string set \<Rightarrow> string set" where
  "conc A B = {u @ v | u v. u \<in> A \<and> v \<in> B}"

fun lang :: "regex \<Rightarrow> string set" where
  "lang Never = {}"
| "lang Empty = {[]}"
| "lang (Atom p) = {[c] | c. p c}"
| "lang (Seq r s) = conc (lang r) (lang s)"
| "lang (Alt r s) = lang r \<union> lang s"
| "lang (Star r) = star (lang r)"

section \<open>Example data\<close>

text \<open>
  The sample row of the source's comment above \<^verbatim>\<open>Hitelezo\<close>, in UTF-8: the name
  \<^verbatim>\<open>Magyar Allamkincstar\<close> and the address \<^verbatim>\<open>Budapest, Vaci ut 71.\<close> with their
  accented letters (C3 81, C3 A1, C3 BA).
\<close>

definition nev_MAK :: string where
  "nev_MAK = ''Magyar '' @ [CHR 0xC3, CHR 0x81] @ ''llamkincst'' @ [CHR 0xC3, CHR 0xA1] @ ''r''"

definition cim_MAK :: string where
  "cim_MAK = ''Budapest, V'' @ [CHR 0xC3, CHR 0xA1] @ ''ci '' @ [CHR 0xC3, CHR 0xBA] @ ''t 71.''"

definition rec_MAK :: Hitelezo where
  "rec_MAK = \<lparr>Bankszerv = ''10002003'', BIC = [], Nev = nev_MAK, Irszam = ''1139'',
     Cim = cim_MAK\<rparr>"

definition page_MAK :: string where
  \<comment> \<open>the four lines, each ended by a line feed, then the form feed\<close>
  "page_MAK = ''10002003'' @ [CHR 0x0A] @ nev_MAK @ [CHR 0x0A] @ ''1139'' @ [CHR 0x0A]
     @ cim_MAK @ [CHR 0x0A, CHR 0x0C]"

text \<open>
  A world without network and without Java, in which every tool and library gives the
  same answer whatever the bytes: \<open>env_text out\<close> has a text tool that prints \<open>out\<close>,
  \<open>env_sheet rows\<close> a modern spreadsheet with these rows. \<open>pdf_bytes\<close> and
  \<open>sheet_bytes\<close> are streams of 1024 bytes with and without the PDF prefix.
\<close>

definition ctx_live :: ctx where
  "ctx_live = \<lparr>ctxDone = (\<lambda>k. False), ctxErr = Opaque ''context canceled''\<rparr>"

definition env_of :: "tabula_run \<Rightarrow> pdftotext_run \<Rightarrow> xlsx_file \<Rightarrow> xls_file \<Rightarrow> env" where
  "env_of t p x l = \<lparr>download = Inl (Opaque ''offline''), spill = None,
     spillRead = (\<lambda>e. e), tabula = (\<lambda>r. t),
     pdftotext = (\<lambda>r. p), excelize = (\<lambda>r. x), xls = (\<lambda>r. l), cx = ctx_live\<rparr>"

definition pdf_bytes :: string where
  "pdf_bytes = ''%PDF-1.4'' @ replicate 1016 (CHR '' '')"

definition sheet_bytes :: string where
  "sheet_bytes = ''PK'' @ replicate 1022 (CHR 0x00)"

definition no_java :: tabula_run where
  "no_java = TabulaNotRun (Opaque ''start java: executable file not found'')"

definition env_text :: "string \<Rightarrow> env" where
  "env_text out = env_of no_java (PdfToTextOutput out None)
     (XlsxOpenError (Opaque ''zip: not a valid zip file'')) (XlsOpenError (Opaque ''not an excel file''))"

definition env_sheet :: "string list list \<Rightarrow> env" where
  "env_sheet rows = env_of no_java (PdfToTextNotRun (Opaque ''no pdftotext''))
     (XlsxRows (map Inr rows)) (XlsOpenError (Opaque ''not an excel file''))"

definition page_noname :: string where
  "page_noname = ''10002003'' @ [CHR 0x0A] @ '' '' @ [CHR 0x0A] @ ''1139'' @ [CHR 0x0A]
     @ ''Budapest'' @ [CHR 0x0A, CHR 0x0C]"

definition page_noaddr :: string where
  "page_noaddr = ''10002003'' @ [CHR 0x0A] @ ''Bank'' @ [CHR 0x0A] @ '' '' @ [CHR 0x0A]
     @ '' '' @ [CHR 0x0A, CHR 0x0C]"

definition rows_ABC :: "string list list" where
  "rows_ABC =
    [[''Kod'', ''Nev'', ''Irsz'', ''Cim''],
     [''10000001'', '''', ''1011'', ''Budapest''],
     [''20000002'', ''Bank B'', ''2000'', ''Szentendre''],
     [''30000003'', ''Bank C'', ''3000'', ''Hatvan'']]"

definition rows_BC :: "string list list" where
  "rows_BC =
    [[''Kod'', ''Nev'', ''Irsz'', ''Cim''],
     [''20000002'', ''Bank B'', ''2000'', ''Szentendre''],
     [''30000003'', ''Bank C'', ''3000'', ''Hatvan'']]"

definition short_row :: "string list" where
  "short_row = [''10002003'', ''Bank'', ''1139'']"

definition rec_A :: Hitelezo where
  "rec_A = \<lparr>Bankszerv = ''10000001'', BIC = [], Nev = [], Irszam = ''1011'', Cim = ''Budapest''\<rparr>"

definition rec_B :: Hitelezo where
  "rec_B = \<lparr>Bankszerv = ''20000002'', BIC = [], Nev = ''Bank B'', Irszam = ''2000'', Cim = ''Szentendre''\<rparr>"

definition rec_C :: Hitelezo where
  "rec_C = \<lparr>Bankszerv = ''30000003'', BIC = [], Nev = ''Bank C'', Irszam = ''3000'', Cim = ''Hatvan''\<rparr>"

text \<open>
  An index page with links that redirect to two editions of the document, as answered by
  \<open>redirects\<close>: two links, 1025 links of which the last one leads to the newer edition,
  and two links that lead nowhere.
\<close>

definition old_href :: string where "old_href = ''https://www.giro.hu/documents/10180/old''"

definition new_href :: string where "new_href = ''https://www.giro.hu/documents/10180/new''"

definition old_loc :: string where "old_loc = ''https://www.giro.hu/files/EHT_20240102.pdf''"

definition new_loc :: string where "new_loc = ''https://www.giro.hu/files/EHT_20250102.pdf''"

definition anchor :: "string \<Rightarrow> token" where
  "anchor href = StartTag ''a'' [(''href'', href)]"

definition redirects :: "string \<Rightarrow> probe_result" where
  "redirects c = Response [] 302 (if c = new_href then new_loc else old_loc)"

definition web_two :: web where
  "web_two = \<lparr>page = PageTokens [anchor old_href, OtherToken, anchor new_href] None,
     probe = redirects, schedule = rev, lostAppend = (\<lambda>k. False),
     sortSlice = sort_key Base\<rparr>"

definition web_many :: web where
  "web_many = \<lparr>page = PageTokens (replicate 1024 (anchor old_href) @ [anchor new_href]) None,
     probe = redirects, schedule = (\<lambda>cs. cs), lostAppend = (\<lambda>k. False),
     sortSlice = sort_key Base\<rparr>"







section \<open>Properties of the string functions\<close>

lemma stripLeading_None: "leading tab s = None \<Longrightarrow> stripLeading tab s = s"
  by (simp add: stripLeading.simps)

lemma stripLeading_Some:
  "leading tab s = Some e \<Longrightarrow> stripLeading tab s = stripLeading tab (drop (length e) s)"
  by (simp add: stripLeading.simps)

text \<open>Rewrite rules that evaluate the functions on literals.\<close>

lemmas TrimSpace_eval = TrimSpace_def TrimLeftSpace_def TrimRightSpace_def
  stripLeading_None stripLeading_Some leading_def whiteSpace_def

lemmas checkAppend_eval = checkAppend_def checkAppend_norm_def Hitelezo_zero_def
  ReplaceAll_NUL_def isDigit_def Let_def

lemma leading_None_iff:
  "leading tab s = None \<longleftrightarrow> (\<forall>e\<in>set tab. e \<noteq> [] \<longrightarrow> \<not> prefix e s)"
  by (auto simp: leading_def find_None_iff)

lemma stripLeading_suffix: "suffix (stripLeading tab s) s"
proof (induction tab s rule: stripLeading.induct)
  case (1 tab s)
  show ?case
  proof (cases "leading tab s")
    case None
    then show ?thesis by (simp add: stripLeading_None)
  next
    case (Some e)
    then have "suffix (stripLeading tab (drop (length e) s)) (drop (length e) s)"
      using "1.IH" by simp
    then have "suffix (stripLeading tab (drop (length e) s)) s"
      using suffix_drop suffix_order.trans by blast
    then show ?thesis using Some by (simp add: stripLeading_Some)
  qed
qed

lemma leading_stripLeading: "leading tab (stripLeading tab s) = None"
proof (induction tab s rule: stripLeading.induct)
  case (1 tab s)
  then show ?case
    by (cases "leading tab s") (simp_all add: stripLeading.simps)
qed

lemma leading_None_prefix:
  "leading tab s = None \<Longrightarrow> prefix t s \<Longrightarrow> leading tab t = None"
  by (meson leading_None_iff prefix_order.trans)

lemma TrimLeftSpace_suffix: "suffix (TrimLeftSpace s) s"
  by (simp add: TrimLeftSpace_def stripLeading_suffix)

lemma TrimRightSpace_prefix: "prefix (TrimRightSpace s) s"
  using stripLeading_suffix[of "map rev whiteSpace" "rev s"]
  by (simp add: TrimRightSpace_def suffix_to_prefix)

lemma TrimSpace_subset: "set (TrimSpace s) \<subseteq> set s"
  using TrimLeftSpace_suffix[of s] TrimRightSpace_prefix[of "TrimLeftSpace s"]
  by (metis TrimSpace_def set_mono_prefix set_mono_suffix subset_trans)

lemma TrimSpace_idem: "TrimSpace (TrimSpace s) = TrimSpace s"
proof -
  let ?l = "TrimLeftSpace s"
  have "leading whiteSpace ?l = None"
    by (simp add: TrimLeftSpace_def leading_stripLeading)
  then have "leading whiteSpace (TrimRightSpace ?l) = None"
    using TrimRightSpace_prefix leading_None_prefix by blast
  then have l: "TrimLeftSpace (TrimRightSpace ?l) = TrimRightSpace ?l"
    by (simp add: TrimLeftSpace_def stripLeading_None)
  have "TrimRightSpace (TrimRightSpace ?l) = TrimRightSpace ?l"
    by (simp add: TrimRightSpace_def stripLeading_None leading_stripLeading)
  with l show ?thesis by (simp add: TrimSpace_def)
qed

lemma ReplaceAll_NUL_id: "CHR 0x00 \<notin> set s \<Longrightarrow> ReplaceAll_NUL s = s"
  by (auto simp: ReplaceAll_NUL_def filter_id_conv)

lemma NUL_notin_clean: "CHR 0x00 \<notin> set (TrimSpace (ReplaceAll_NUL s))"
proof -
  have "CHR 0x00 \<notin> set (ReplaceAll_NUL s)" by (simp add: ReplaceAll_NUL_def)
  then show ?thesis using TrimSpace_subset by blast
qed

lemma clean_idem:
  "TrimSpace (ReplaceAll_NUL (TrimSpace (ReplaceAll_NUL s))) = TrimSpace (ReplaceAll_NUL s)"
  by (simp add: ReplaceAll_NUL_id NUL_notin_clean TrimSpace_idem)

lemma leading_None_hd:
  "s \<noteq> [] \<Longrightarrow> list_all (\<lambda>e. e = [] \<or> hd e \<noteq> hd s) tab \<Longrightarrow> leading tab s = None"
  by (auto simp: leading_None_iff list_all_iff prefix_def)

lemma digit_not_space_hd: "isDigit c \<Longrightarrow> list_all (\<lambda>e. e = [] \<or> hd e \<noteq> c) whiteSpace"
  by (auto simp: whiteSpace_def isDigit_def)

lemma digit_not_space_last:
  "isDigit c \<Longrightarrow> list_all (\<lambda>e. e = [] \<or> hd e \<noteq> c) (map rev whiteSpace)"
  by (auto simp: whiteSpace_def isDigit_def)

lemma TrimSpace_digits:
  assumes "s \<noteq> []" "list_all isDigit s"
  shows "TrimSpace s = s"
proof -
  have "isDigit (hd s)" "isDigit (last s)"
    using assms by (auto simp: list_all_iff)
  then have "leading whiteSpace s = None" "leading (map rev whiteSpace) (rev s) = None"
    using assms(1)
    by (simp_all add: leading_None_hd digit_not_space_hd digit_not_space_last hd_rev)
  then show ?thesis
    by (simp add: TrimSpace_def TrimLeftSpace_def TrimRightSpace_def stripLeading_None)
qed

lemma digits_no_NUL: "list_all isDigit s \<Longrightarrow> CHR 0x00 \<notin> set s"
  by (auto simp: list_all_iff isDigit_def)

section \<open>Normalization of a record\<close>

lemma norm_fields:
  fixes r :: Hitelezo
  defines "i \<equiv> TrimSpace (ReplaceAll_NUL (Irszam r))"
    and "c \<equiv> TrimSpace (ReplaceAll_NUL (Cim r))"
  defines "sp \<equiv> i = [] \<and> length c > 5 \<and> IndexByte c CHR '' '' = 4 \<and>
    list_all isDigit (take 4 c)"
  shows "Bankszerv (checkAppend_norm r) = TrimSpace (ReplaceAll_NUL (Bankszerv r))"
    and "BIC (checkAppend_norm r) = BIC r"
    and "Nev (checkAppend_norm r) = TrimSpace (ReplaceAll_NUL (Nev r))"
    and "Irszam (checkAppend_norm r) = (if sp then take 4 c else i)"
    and "Cim (checkAppend_norm r) = (if sp then drop 5 c else c)"
  unfolding checkAppend_norm_def Let_def i_def c_def sp_def by simp_all

lemma norm_twice:
  "checkAppend_norm (checkAppend_norm r) =
     (checkAppend_norm r)\<lparr>Cim := TrimSpace (Cim (checkAppend_norm r))\<rparr>"
proof -
  define c where "c = TrimSpace (ReplaceAll_NUL (Cim r))"
  define i where "i = TrimSpace (ReplaceAll_NUL (Irszam r))"
  define sp where "sp \<longleftrightarrow> i = [] \<and> length c > 5 \<and> IndexByte c CHR '' '' = 4 \<and>
    list_all isDigit (take 4 c)"
  define r1 where "r1 = checkAppend_norm r"
  have cc: "TrimSpace (ReplaceAll_NUL c) = c" "TrimSpace (ReplaceAll_NUL i) = i"
    "TrimSpace c = c"
    by (simp_all add: c_def i_def clean_idem TrimSpace_idem)
  have i1: "Irszam r1 = (if sp then take 4 c else i)"
    and c1: "Cim r1 = (if sp then drop 5 c else c)"
    unfolding r1_def sp_def i_def c_def by (rule norm_fields)+
  have nul: "CHR 0x00 \<notin> set (Cim r1)"
  proof -
    have "CHR 0x00 \<notin> set c" by (simp add: c_def NUL_notin_clean)
    then show ?thesis unfolding c1 by (auto dest: in_set_dropD)
  qed
  have ic: "TrimSpace (ReplaceAll_NUL (Irszam r1)) = Irszam r1"
  proof (cases sp)
    case True
    then have "take 4 c \<noteq> []" "list_all isDigit (take 4 c)" by (auto simp: sp_def)
    then show ?thesis using True
      by (simp add: i1 ReplaceAll_NUL_id digits_no_NUL TrimSpace_digits)
  next
    case False
    then show ?thesis by (simp add: i1 cc)
  qed
  have cl: "TrimSpace (ReplaceAll_NUL (Cim r1)) = TrimSpace (Cim r1)"
    using nul by (simp add: ReplaceAll_NUL_id)
  have nosp: "\<not> (Irszam r1 = [] \<and> length (TrimSpace (Cim r1)) > 5 \<and>
      IndexByte (TrimSpace (Cim r1)) CHR '' '' = 4 \<and>
      list_all isDigit (take 4 (TrimSpace (Cim r1))))"
  proof (cases sp)
    case True
    then have "take 4 c \<noteq> []" by (auto simp: sp_def)
    then show ?thesis using True by (simp add: i1)
  next
    case False
    then have "Irszam r1 = i" "Cim r1 = c" by (simp_all add: i1 c1)
    then show ?thesis using False by (simp add: cc sp_def)
  qed
  have "Bankszerv (checkAppend_norm r1) = Bankszerv r1"
    by (simp add: norm_fields r1_def clean_idem)
  moreover have "BIC (checkAppend_norm r1) = BIC r1"
    by (simp add: norm_fields)
  moreover have "Nev (checkAppend_norm r1) = Nev r1"
    by (simp add: norm_fields r1_def clean_idem)
  moreover have "Irszam (checkAppend_norm r1) = Irszam r1"
    using nosp by (simp only: norm_fields ic cl if_False)
  moreover have "Cim (checkAppend_norm r1) = TrimSpace (Cim r1)"
    using nosp by (simp only: norm_fields ic cl if_False)
  ultimately have "checkAppend_norm r1 = r1\<lparr>Cim := TrimSpace (Cim r1)\<rparr>"
    by (intro Hitelezo.equality) simp_all
  then show ?thesis by (simp only: r1_def)
qed

lemma norm_thrice:
  "checkAppend_norm (checkAppend_norm (checkAppend_norm r)) =
     checkAppend_norm (checkAppend_norm r)"
proof -
  define r1 where "r1 = checkAppend_norm r"
  define r2 where "r2 = checkAppend_norm r1"
  have a: "r2 = r1\<lparr>Cim := TrimSpace (Cim r1)\<rparr>"
    unfolding r2_def r1_def by (rule norm_twice)
  have "checkAppend_norm r2 = r2\<lparr>Cim := TrimSpace (Cim r2)\<rparr>"
    unfolding r2_def by (rule norm_twice)
  also have "\<dots> = r2" unfolding a by (simp add: TrimSpace_idem)
  finally show ?thesis by (simp only: r2_def r1_def)
qed

text \<open>
  Claim C7, as stated: normalizing an already normalized record yields the same record.
  It fails when the address has more than one space after the four digits: the split
  keeps the white space after the first space, and only a second pass trims it.
\<close>

theorem checkAppend_not_idempotent:
  "checkAppend []
     \<lparr>Bankszerv = ''10002003'', BIC = [], Nev = ''Bank'', Irszam = [],
      Cim = ''1139  Budapest''\<rparr> =
     [\<lparr>Bankszerv = ''10002003'', BIC = [], Nev = ''Bank'', Irszam = ''1139'',
       Cim = '' Budapest''\<rparr>] \<and>
   checkAppend []
     \<lparr>Bankszerv = ''10002003'', BIC = [], Nev = ''Bank'', Irszam = ''1139'',
      Cim = '' Budapest''\<rparr> =
     [\<lparr>Bankszerv = ''10002003'', BIC = [], Nev = ''Bank'', Irszam = ''1139'',
       Cim = ''Budapest''\<rparr>] \<and>
   checkAppend_norm (checkAppend_norm
     \<lparr>Bankszerv = ''10002003'', BIC = [], Nev = ''Bank'', Irszam = [],
      Cim = ''1139  Budapest''\<rparr>) \<noteq>
   checkAppend_norm
     \<lparr>Bankszerv = ''10002003'', BIC = [], Nev = ''Bank'', Irszam = [],
      Cim = ''1139  Budapest''\<rparr>"
  by (simp add: checkAppend_eval TrimSpace_eval)

text \<open>
  Claim C7, amended: a second normalization changes nothing but the address, which it
  trims once more; so the normalization is idempotent on every record whose normalized
  address carries no surrounding white space, in particular whenever no postal code was
  split off the address.
\<close>

theorem checkAppend_norm_twice:
  "checkAppend_norm (checkAppend_norm r) =
     (checkAppend_norm r)\<lparr>Cim := TrimSpace (Cim (checkAppend_norm r))\<rparr> \<and>
   (TrimSpace (Cim (checkAppend_norm r)) = Cim (checkAppend_norm r) \<longrightarrow>
      checkAppend_norm (checkAppend_norm r) = checkAppend_norm r) \<and>
   (Cim (checkAppend_norm r) = TrimSpace (ReplaceAll_NUL (Cim r)) \<longrightarrow>
      checkAppend_norm (checkAppend_norm r) = checkAppend_norm r)"
proof -
  have eq: "checkAppend_norm (checkAppend_norm r) =
     (checkAppend_norm r)\<lparr>Cim := TrimSpace (Cim (checkAppend_norm r))\<rparr>"
    by (rule norm_twice)
  have "checkAppend_norm (checkAppend_norm r) = checkAppend_norm r"
    if "TrimSpace (Cim (checkAppend_norm r)) = Cim (checkAppend_norm r)"
    using eq that by simp
  moreover have "TrimSpace (Cim (checkAppend_norm r)) = Cim (checkAppend_norm r)"
    if "Cim (checkAppend_norm r) = TrimSpace (ReplaceAll_NUL (Cim r))"
    using that by (simp add: TrimSpace_idem)
  ultimately show ?thesis using eq by blast
qed

theorem checkAppend_norm_twice_witness:
  "TrimSpace (Cim (checkAppend_norm
      \<lparr>Bankszerv = ''10002003'', BIC = [], Nev = ''Bank'', Irszam = [],
       Cim = ''1139 Budapest''\<rparr>)) =
     Cim (checkAppend_norm
      \<lparr>Bankszerv = ''10002003'', BIC = [], Nev = ''Bank'', Irszam = [],
       Cim = ''1139 Budapest''\<rparr>) \<and>
   checkAppend_norm (checkAppend_norm
      \<lparr>Bankszerv = ''10002003'', BIC = [], Nev = ''Bank'', Irszam = [],
       Cim = ''1139 Budapest''\<rparr>) =
     \<lparr>Bankszerv = ''10002003'', BIC = [], Nev = ''Bank'', Irszam = ''1139'',
      Cim = ''Budapest''\<rparr>"
proof -
  let ?r = "\<lparr>Bankszerv = ''10002003'', BIC = [], Nev = ''Bank'', Irszam = [],
       Cim = ''1139 Budapest''\<rparr>"
  have n: "checkAppend_norm ?r = \<lparr>Bankszerv = ''10002003'', BIC = [], Nev = ''Bank'',
      Irszam = ''1139'', Cim = ''Budapest''\<rparr>"
    by (simp add: checkAppend_eval TrimSpace_eval)
  have t: "TrimSpace ''Budapest'' = ''Budapest''"
    by (simp add: TrimSpace_eval)
  show ?thesis using checkAppend_norm_twice [of ?r] unfolding n by (simp add: t)
qed

section \<open>One page of extracted text\<close>

lemma processLines_Nil: "processLines [] recs = recs"
  by (simp add: processLines_def)

lemma processLines_4:
  "processLines [a, b, c, d] recs =
     checkAppend recs \<lparr>Bankszerv = a, BIC = [], Nev = b, Irszam = c, Cim = d\<rparr>"
  by (simp add: processLines_def)

lemma scanLines_page_MAK:
  "scanLines [] page_MAK = [''10002003'', nev_MAK, ''1139'', cim_MAK, [CHR 0x0C]]"
  unfolding page_MAK_def nev_MAK_def cim_MAK_def by (simp add: dropCR_def)

lemma parseTXT_loop_page_MAK:
  "parseTXT_loop False [] [] [''10002003'', nev_MAK, ''1139'', cim_MAK, [CHR 0x0C]] =
     ([], processLines [''10002003'', nev_MAK, ''1139'', cim_MAK] [])"
  unfolding nev_MAK_def cim_MAK_def
  by (simp add: isDigit_def suffix_to_prefix TrimSpace_eval)

lemma checkAppend_rec_MAK: "checkAppend [] rec_MAK = [rec_MAK]"
  unfolding rec_MAK_def nev_MAK_def cim_MAK_def
  by (simp add: checkAppend_eval TrimSpace_eval)

lemma parseTXT_page_MAK: "parseTXT page_MAK = ([rec_MAK], None)"
  unfolding parseTXT_def scanLines_page_MAK parseTXT_loop_page_MAK processLines_4
  using checkAppend_rec_MAK by (simp add: processLines_Nil rec_MAK_def)

text \<open>
  Claim C8: the four lines \<^verbatim>\<open>10002003\<close>, \<^verbatim>\<open>Magyar Allamkincstar\<close>, \<^verbatim>\<open>1139\<close>,
  \<^verbatim>\<open>Budapest, Vaci ut 71.\<close> (with their accents, in UTF-8), each ended by a line feed
  and followed by a form feed, give exactly one record, with these four fields and an
  empty BIC, and no error.
\<close>

theorem parseTXT_one_page:
  "parseTXT page_MAK =
     ([\<lparr>Bankszerv = ''10002003'', BIC = [], Nev = nev_MAK, Irszam = ''1139'',
        Cim = cim_MAK\<rparr>], None)"
  using parseTXT_page_MAK by (simp add: rec_MAK_def)

section \<open>The cleanup pass\<close>

lemma cleanup_stop: "\<not> i < length hit \<Longrightarrow> cleanup i hit = hit"
  by (simp add: cleanup.simps)

lemma cleanup_drop:
  "i < length hit \<Longrightarrow> invalid (hit ! i) \<Longrightarrow> cleanup i hit = cleanup i (butlast (hit[i := last hit]))"
  by (simp add: cleanup.simps[of i hit])

lemma cleanup_keep:
  "i < length hit \<Longrightarrow> \<not> invalid (hit ! i) \<Longrightarrow> cleanup i hit = cleanup (Suc i) hit"
  by (simp add: cleanup.simps[of i hit])

lemmas cleanup_eval = cleanup_stop cleanup_drop cleanup_keep invalid_def

lemma cleanup_step:
  assumes "length xs = i"
  shows "butlast ((xs @ x # ys)[i := last (xs @ x # ys)]) =
    (if ys = [] then xs else xs @ last ys # butlast ys)"
  using assms by (cases ys rule: rev_cases) (simp_all add: list_update_append butlast_append)

lemma cleanup_mset:
  "mset (cleanup i hit) =
     mset (take i hit) + filter_mset (\<lambda>h. \<not> invalid h) (mset (drop i hit))"
proof (induction i hit rule: cleanup.induct)
  case (1 i hit)
  show ?case
  proof (cases "i < length hit")
    case False
    then show ?thesis by (simp add: cleanup.simps)
  next
    case True
    define xs where "xs = take i hit"
    define x where "x = hit ! i"
    define ys where "ys = drop (Suc i) hit"
    have hit: "hit = xs @ x # ys" and len: "length xs = i"
      using True by (simp_all add: xs_def x_def ys_def id_take_nth_drop)
    show ?thesis
    proof (cases "invalid x")
      case False
      then have "cleanup i hit = cleanup (Suc i) hit"
        using True by (simp add: cleanup.simps[of i hit] x_def)
      moreover have "mset (cleanup (Suc i) hit) =
         mset (take (Suc i) hit) + filter_mset (\<lambda>h. \<not> invalid h) (mset (drop (Suc i) hit))"
        using "1.IH"(2) True False by (simp add: x_def)
      ultimately show ?thesis using False len by (simp add: hit)
    next
      case inv: True
      let ?hit' = "butlast (hit[i := last hit])"
      have h': "?hit' = (if ys = [] then xs else xs @ last ys # butlast ys)"
        unfolding hit using len by (rule cleanup_step)
      have "cleanup i hit = cleanup i ?hit'"
        using True inv by (simp add: cleanup.simps[of i hit] x_def)
      moreover have "mset (cleanup i ?hit') =
         mset (take i ?hit') + filter_mset (\<lambda>h. \<not> invalid h) (mset (drop i ?hit'))"
        using "1.IH"(1) True inv by (simp add: x_def)
      moreover have "mset (take i ?hit') + filter_mset (\<lambda>h. \<not> invalid h) (mset (drop i ?hit'))
          = mset (take i hit) + filter_mset (\<lambda>h. \<not> invalid h) (mset (drop i hit))"
      proof -
        have t: "take i hit = xs" "drop i hit = x # ys"
          using len by (simp_all add: hit)
        show ?thesis
        proof (cases "ys = []")
          case True
          then have e: "?hit' = xs" using h' by simp
          show ?thesis unfolding e t using len inv True by simp
        next
          case False
          then have e: "?hit' = xs @ last ys # butlast ys" using h' by simp
          have "mset (last ys # butlast ys) = mset (butlast ys @ [last ys])"
            by simp
          also have "\<dots> = mset ys" using False by simp
          finally have m: "mset (last ys # butlast ys) = mset ys" .
          have "drop i ?hit' = last ys # butlast ys" "take i ?hit' = xs"
            unfolding e using len by simp_all
          then show ?thesis unfolding t using inv m
            by (metis filter_mset_add_mset mset.simps(2))
        qed
      qed
      ultimately show ?thesis by simp
    qed
  qed
qed

lemma cleanup_id: "\<forall>h\<in>set hit. \<not> invalid h \<Longrightarrow> cleanup i hit = hit"
proof (induction i hit rule: cleanup.induct)
  case (1 i hit)
  show ?case
  proof (cases "i < length hit")
    case False
    then show ?thesis by (simp add: cleanup.simps)
  next
    case True
    then have "\<not> invalid (hit ! i)" using "1.prems" by simp
    then show ?thesis using True "1.IH"(2) "1.prems" by (simp add: cleanup.simps[of i hit])
  qed
qed

lemma cleanup_set: "set (cleanup 0 hit) = {h \<in> set hit. \<not> invalid h}"
proof -
  have "set_mset (mset (cleanup 0 hit)) = set_mset (filter_mset (\<lambda>h. \<not> invalid h) (mset hit))"
    by (simp add: cleanup_mset)
  then show ?thesis by auto
qed

lemma cleanup_list_all: "list_all (\<lambda>h. \<not> invalid h) (cleanup 0 hit)"
  by (simp add: list_all_iff cleanup_set)

lemma valid_record_iff: "valid_record h \<longleftrightarrow> length (Bankszerv h) = 8 \<and> \<not> invalid h"
  by (auto simp: valid_record_def invalid_def)

section \<open>What the parsers accept\<close>

lemma checkAppend_cases:
  "checkAppend records r = records \<or>
   (checkAppend records r = records @ [checkAppend_norm r] \<and> accepted (checkAppend_norm r))"
  by (simp add: checkAppend_def Let_def accepted_def)

lemma checkAppend_accepted:
  "list_all accepted records \<Longrightarrow> list_all accepted (checkAppend records r)"
  using checkAppend_cases[of records r] by auto

lemma foldl_checkAppend_accepted:
  "list_all accepted records \<Longrightarrow> list_all accepted (foldl (\<lambda>recs i. checkAppend recs (f i)) records is)"
  by (induction "is" arbitrary: records) (simp_all add: checkAppend_accepted)

lemma processLines_accepted:
  "list_all accepted records \<Longrightarrow> list_all accepted (processLines lines records)"
  unfolding processLines_def Let_def by (rule foldl_checkAppend_accepted)

lemma parseTXT_loop_accepted:
  "list_all accepted records \<Longrightarrow>
   list_all accepted (snd (parseTXT_loop numberSeen lines records toks))"
proof (induction toks arbitrary: numberSeen lines records)
  case Nil
  then show ?case by simp
next
  case (Cons line rest)
  show ?case
  proof (cases line)
    case Nil
    then show ?thesis using Cons by simp
  next
    case (Cons c cs)
    then show ?thesis using Cons.IH Cons.prems
      by (simp add: processLines_accepted)
  qed
qed

lemma parseTXT_accepted: "list_all accepted (fst (parseTXT r))"
proof -
  obtain lines records where l: "parseTXT_loop False [] [] (scanLines [] r) = (lines, records)"
    by (cases "parseTXT_loop False [] [] (scanLines [] r)")
  have "list_all accepted (snd (parseTXT_loop False [] [] (scanLines [] r)))"
    by (rule parseTXT_loop_accepted) simp
  then have "list_all accepted records" by (simp add: l)
  then show ?thesis by (simp add: parseTXT_def l processLines_accepted)
qed

lemma parsePDFPdfToText_accepted:
  "parsePDFPdfToText run = Return hit err \<Longrightarrow> list_all accepted hit"
  using parseTXT_accepted[of "case run of PdfToTextOutput out w \<Rightarrow> out | _ \<Rightarrow> []"]
  by (auto simp: parsePDFPdfToText_def split: pdftotext_run.splits prod.splits option.splits if_splits)

lemma ParseXLSX_rows_accepted:
  "ParseXLSX_rows c k hs ni rec records rows = Return hit err \<Longrightarrow>
   list_all accepted records \<Longrightarrow> list_all accepted hit"
proof (induction rows arbitrary: k hs ni rec records)
  case Nil
  then show ?case by simp
next
  case (Cons x rows)
  show ?case
  proof (cases x)
    case (Inl e)
    then show ?thesis using Cons.prems by simp
  next
    case (Inr row)
    show ?thesis
    proof (cases hs)
      case False
      then show ?thesis using Cons.prems Inr Cons.IH
        by (auto split: if_splits)
    next
      case True
      then show ?thesis using Cons.prems Inr
        by (auto simp: Let_def checkAppend_accepted split: if_splits dest!: Cons.IH)
    qed
  qed
qed

lemma ParseXLSX_accepted: "ParseXLSX c wb = Return hit err \<Longrightarrow> list_all accepted hit"
  by (auto simp: ParseXLSX_def split: xlsx_file.splits dest: ParseXLSX_rows_accepted)

lemma ParseXLS_rows_accepted:
  "ParseXLS_rows c k sheet rec records ns = Return hit err \<Longrightarrow>
   list_all accepted records \<Longrightarrow> list_all accepted hit"
proof (induction ns arbitrary: k rec records)
  case Nil
  then show ?case by simp
next
  case (Cons n ns)
  then show ?case
    by (auto simp: Let_def checkAppend_accepted split: option.splits if_splits dest!: Cons.IH)
qed

lemma ParseXLS_accepted:
  "ParseXLS c seekErr xlsx wb = Return hit err \<Longrightarrow> list_all accepted hit"
  by (auto simp: ParseXLS_def split: xls_file.splits option.splits
      dest: ParseXLS_rows_accepted ParseXLSX_accepted)

lemma Parse_spreadsheet_accepted:
  "Parse_spreadsheet env sr = Return hit err \<Longrightarrow> list_all accepted hit"
  by (auto simp: Parse_spreadsheet_def split: result.splits if_splits
      dest: ParseXLS_accepted ParseXLSX_accepted)

section \<open>The order of the records\<close>

lemma checkAppend_kept:
  "checkAppend records r = records @ (case checkAppend_kept r of None \<Rightarrow> [] | Some x \<Rightarrow> [x])"
  by (simp add: checkAppend_def checkAppend_kept_def Let_def)

lemma map_filter_snoc:
  "List.map_filter f (xs @ [x]) = List.map_filter f xs @ (case f x of None \<Rightarrow> [] | Some y \<Rightarrow> [y])"
  by (simp add: List.map_filter_def split: option.splits)

lemma map_filter_Cons:
  "List.map_filter f (x # xs) = (case f x of None \<Rightarrow> [] | Some y \<Rightarrow> [y]) @ List.map_filter f xs"
  by (simp split: option.splits)

lemma map_filter_append:
  "List.map_filter f (xs @ ys) = List.map_filter f xs @ List.map_filter f ys"
  by (simp add: List.map_filter_def)

lemma foldl_checkAppend:
  "foldl (\<lambda>recs i. checkAppend recs (f i)) records is =
     records @ List.map_filter checkAppend_kept (map f is)"
proof (induction "is" arbitrary: records)
  case Nil
  then show ?case by simp
next
  case (Cons i "is")
  have "foldl (\<lambda>recs i. checkAppend recs (f i)) records (i # is) =
      foldl (\<lambda>recs i. checkAppend recs (f i)) (checkAppend records (f i)) is"
    by simp
  also have "\<dots> = checkAppend records (f i) @ List.map_filter checkAppend_kept (map f is)"
    by (rule Cons.IH)
  also have "\<dots> = records @ List.map_filter checkAppend_kept (map f (i # is))"
    by (simp only: checkAppend_kept[of records] list.map map_filter_Cons append_assoc)
  finally show ?case .
qed

lemma processLines_page:
  "processLines lines records = records @ List.map_filter checkAppend_kept (page_records lines)"
  unfolding processLines_def page_records_def Let_def by (rule foldl_checkAppend)

lemma foldl_processLines:
  "foldl (\<lambda>recs pg. processLines pg recs) records pages =
     records @ List.map_filter checkAppend_kept (concat (map page_records pages))"
proof (induction pages arbitrary: records)
  case Nil
  then show ?case by simp
next
  case (Cons pg pages)
  have "foldl (\<lambda>recs pg. processLines pg recs) records (pg # pages) =
      foldl (\<lambda>recs pg. processLines pg recs) (processLines pg records) pages"
    by simp
  also have "\<dots> = processLines pg records @
      List.map_filter checkAppend_kept (concat (map page_records pages))"
    by (rule Cons.IH)
  also have "\<dots> = records @
      List.map_filter checkAppend_kept (concat (map page_records (pg # pages)))"
    by (simp only: processLines_page[of pg records] list.map concat.simps map_filter_append
        append_assoc)
  finally show ?case .
qed

lemma parseTXT_loop_pages:
  "parseTXT_loop numberSeen lines records toks = (l, recs) \<Longrightarrow>
   processLines l recs =
     foldl (\<lambda>recs pg. processLines pg recs) records (parseTXT_pages numberSeen lines toks)"
proof (induction toks arbitrary: numberSeen lines records)
  case Nil
  then show ?case by simp
next
  case (Cons line rest)
  show ?case
  proof (cases line)
    case Nil
    then show ?thesis using Cons.prems Cons.IH by simp
  next
    case (Cons c cs)
    have e: "processLines [] rs = rs" for rs
      by (simp add: processLines_def)
    show ?thesis using Cons.prems Cons.IH unfolding Cons
      by (auto simp: e split: if_splits)
  qed
qed

lemma parseTXT_order:
  "parseTXT r = (List.map_filter checkAppend_kept
      (concat (map page_records (parseTXT_pages False [] (scanLines [] r)))), None)"
proof -
  obtain l recs where l: "parseTXT_loop False [] [] (scanLines [] r) = (l, recs)"
    by (cases "parseTXT_loop False [] [] (scanLines [] r)")
  show ?thesis
    using parseTXT_loop_pages[OF l] by (simp add: parseTXT_def l foldl_processLines)
qed

lemma in_source_order_all:
  "in_source_order src (List.map_filter checkAppend_kept src) err"
  by (auto simp: in_source_order_def)

lemma in_source_order_prefix:
  "prefix p src \<Longrightarrow> err \<noteq> None \<Longrightarrow> in_source_order src (List.map_filter checkAppend_kept p) err"
  by (auto simp: in_source_order_def)

lemma in_source_order_Nil: "err \<noteq> None \<Longrightarrow> in_source_order src [] err"
  using in_source_order_prefix[of "[]" src err] by simp

lemma parsePDFPdfToText_order:
  "parsePDFPdfToText run = Return hit err \<Longrightarrow> in_source_order (text_source run) hit err"
proof (cases run)
  case (PdfToTextNotRun e)
  assume "parsePDFPdfToText run = Return hit err"
  then show ?thesis using PdfToTextNotRun
    by (auto simp: parsePDFPdfToText_def text_source_def in_source_order_Nil)
next
  case (PdfToTextOutput out w)
  assume "parsePDFPdfToText run = Return hit err"
  then have "hit = List.map_filter checkAppend_kept (text_source run)"
    using PdfToTextOutput
    by (auto simp: parsePDFPdfToText_def text_source_def parseTXT_order split: option.splits)
  then show ?thesis by (simp add: in_source_order_all)
qed

lemma parsePDFTabula_rows_order:
  "parsePDFTabula_rows hit0 rows = Some hit \<Longrightarrow> hit = hit0 @ map tabula_record rows"
proof (induction rows arbitrary: hit0)
  case Nil
  then show ?case by simp
next
  case (Cons row rows)
  then have "parsePDFTabula_rows (hit0 @ [tabula_record row]) rows = Some hit"
    by (simp add: tabula_record_def split: if_splits)
  then have "hit = (hit0 @ [tabula_record row]) @ map tabula_record rows"
    by (rule Cons.IH)
  then show ?case by simp
qed

lemma parsePDFTabula_order:
  "parsePDFTabula run = Return hit err \<Longrightarrow> hit = tabula_source run"
  by (auto simp: parsePDFTabula_def tabula_source_def split: tabula_run.splits option.splits
      dest: parsePDFTabula_rows_order)

lemma ParseXLSX_rows_order:
  "ParseXLSX_rows c k True ni rec records xrows = Return hit err \<Longrightarrow>
   (if ni then Irszam rec = [] else BIC rec = []) \<Longrightarrow>
   (\<exists>p. prefix p (map (xlsx_record ni) (readable xrows)) \<and>
        hit = records @ List.map_filter checkAppend_kept p) \<and>
   (err = None \<longrightarrow>
      hit = records @ List.map_filter checkAppend_kept (map (xlsx_record ni) (readable xrows)))"
proof (induction xrows arbitrary: k rec records)
  case Nil
  then show ?case by simp
next
  case (Cons x xrows)
  show ?case
  proof (cases x)
    case (Inl e)
    then show ?thesis using Cons.prems by simp
  next
    case (Inr row)
    let ?rec = "xlsx_record ni row"
    let ?records = "checkAppend records ?rec"
    have len: "\<not> length row < 4" using Cons.prems(1) Inr by (auto split: if_splits)
    have r: "(if ni
              then rec\<lparr>Bankszerv := row ! 0, BIC := row ! 1, Nev := row ! 2, Cim := row ! 3\<rparr>
              else rec\<lparr>Bankszerv := row ! 0, Nev := row ! 1, Irszam := row ! 2, Cim := row ! 3\<rparr>)
          = ?rec"
      using Cons.prems(2) by (cases rec; cases ni) (simp_all add: xlsx_record_def)
    have inv: "if ni then Irszam ?rec = [] else BIC ?rec = []"
      by (simp add: xlsx_record_def)
    have step: "ParseXLSX_rows c k True ni rec records (x # xrows) =
        (if ctxDone c k then Return ?records (Some (ctxErr c))
         else ParseXLSX_rows c (Suc k) True ni ?rec ?records xrows)"
      using len unfolding Inr ParseXLSX_rows.simps by (simp only: r Let_def sum.case if_False simp_thms)
    have rd: "map (xlsx_record ni) (readable (x # xrows)) =
        ?rec # map (xlsx_record ni) (readable xrows)"
      by (simp add: Inr)
    have app: "?records = records @ List.map_filter checkAppend_kept [?rec]"
      by (simp add: checkAppend_kept[of records] split: option.splits)
    show ?thesis
    proof (cases "ctxDone c k")
      case True
      then have h: "hit = ?records" "err = Some (ctxErr c)"
        using Cons.prems(1) step by simp_all
      have "prefix [?rec] (map (xlsx_record ni) (readable (x # xrows)))"
        unfolding rd by simp
      then show ?thesis using h app by blast
    next
      case False
      then have "ParseXLSX_rows c (Suc k) True ni ?rec ?records xrows = Return hit err"
        using Cons.prems(1) step by simp
      from Cons.IH[OF this inv]
      obtain p where p: "prefix p (map (xlsx_record ni) (readable xrows))"
          "hit = ?records @ List.map_filter checkAppend_kept p"
        and a: "err = None \<longrightarrow>
          hit = ?records @ List.map_filter checkAppend_kept (map (xlsx_record ni) (readable xrows))"
        by blast
      have "prefix (?rec # p) (map (xlsx_record ni) (readable (x # xrows)))"
        unfolding rd using p(1) by simp
      moreover have "hit = records @ List.map_filter checkAppend_kept (?rec # p)"
        unfolding p(2) app by (simp only: map_filter_append[symmetric] append_assoc append.simps)
      moreover have "err = None \<longrightarrow> hit = records @
          List.map_filter checkAppend_kept (map (xlsx_record ni) (readable (x # xrows)))"
      proof
        assume "err = None"
        then have "hit = ?records @
            List.map_filter checkAppend_kept (map (xlsx_record ni) (readable xrows))"
          using a by simp
        then show "hit = records @
            List.map_filter checkAppend_kept (map (xlsx_record ni) (readable (x # xrows)))"
          unfolding rd app by (simp only: map_filter_append[symmetric] append_assoc append.simps)
      qed
      ultimately show ?thesis by blast
    qed
  qed
qed

lemma in_source_order_I:
  "prefix p src \<Longrightarrow> hit = List.map_filter checkAppend_kept p \<Longrightarrow>
   (err = None \<longrightarrow> hit = List.map_filter checkAppend_kept src) \<Longrightarrow>
   in_source_order src hit err"
  by (auto simp: in_source_order_def)

lemma ParseXLSX_order:
  assumes "ParseXLSX c wb = Return hit err"
  shows "in_source_order (xlsx_source wb) hit err"
proof (cases wb)
  case (XlsxOpenError e)
  then show ?thesis using assms by (auto simp: ParseXLSX_def in_source_order_Nil)
next
  case (XlsxRowsError e)
  then show ?thesis using assms by (auto simp: ParseXLSX_def in_source_order_Nil)
next
  case (XlsxRows xrows)
  then have r: "ParseXLSX_rows c 0 False False Hitelezo_zero [] xrows = Return hit err"
    using assms by (simp add: ParseXLSX_def)
  show ?thesis
  proof (cases xrows)
    case Nil
    then show ?thesis using r XlsxRows
      by (simp add: xlsx_source_def in_source_order_def)
  next
    case (Cons x rest)
    show ?thesis
    proof (cases x)
      case (Inl e)
      then show ?thesis using r XlsxRows Cons
        by (simp add: xlsx_source_def in_source_order_def)
    next
      case (Inr header)
      let ?ni = "header ! 3 = ''Address of the branch office''"
      have "ParseXLSX_rows c 0 True ?ni Hitelezo_zero [] rest = Return hit err"
        using r Cons Inr by (simp split: if_splits)
      moreover have "if ?ni then Irszam Hitelezo_zero = [] else BIC Hitelezo_zero = []"
        by (simp add: Hitelezo_zero_def)
      ultimately obtain p where p: "prefix p (map (xlsx_record ?ni) (readable rest))"
          "hit = List.map_filter checkAppend_kept p"
        and a: "err = None \<longrightarrow>
          hit = List.map_filter checkAppend_kept (map (xlsx_record ?ni) (readable rest))"
        using ParseXLSX_rows_order[of c 0 ?ni Hitelezo_zero "[]" rest hit err] by auto
      have s: "xlsx_source wb = map (xlsx_record ?ni) (readable rest)"
        by (simp add: xlsx_source_def XlsxRows Cons Inr)
      show ?thesis unfolding s using p a by (rule in_source_order_I)
    qed
  qed
qed

lemma ParseXLS_rows_order:
  "ParseXLS_rows c k sheet rec records ns = Return hit err \<Longrightarrow> BIC rec = [] \<Longrightarrow>
   (\<exists>p. prefix p (xls_rows sheet ns) \<and> hit = records @ List.map_filter checkAppend_kept p) \<and>
   (err = None \<longrightarrow> hit = records @ List.map_filter checkAppend_kept (xls_rows sheet ns))"
proof (induction ns arbitrary: k rec records)
  case Nil
  then show ?case by (simp add: xls_rows_def)
next
  case (Cons n ns)
  show ?case
  proof (cases "n < 1 \<or> Row sheet n = None")
    case True
    then have "ParseXLS_rows c k sheet rec records ns = Return hit err"
      using Cons.prems(1) by (auto split: option.splits)
    then have "(\<exists>p. prefix p (xls_rows sheet ns) \<and>
          hit = records @ List.map_filter checkAppend_kept p) \<and>
       (err = None \<longrightarrow> hit = records @ List.map_filter checkAppend_kept (xls_rows sheet ns))"
      using Cons.prems(2) by (rule Cons.IH)
    moreover have "xls_rows sheet (n # ns) = xls_rows sheet ns"
      using True by (auto simp: xls_rows_def)
    ultimately show ?thesis by simp
  next
    case False
    then obtain row where row: "Row sheet n = Some row" and n: "\<not> n < 1" by auto
    let ?rec = "xls_record row"
    let ?records = "checkAppend records ?rec"
    have r: "rec\<lparr>Bankszerv := Col row (FirstCol row + 0), Nev := Col row (FirstCol row + 1),
                 Irszam := Col row (FirstCol row + 2), Cim := Col row (FirstCol row + 3)\<rparr> = ?rec"
      using Cons.prems(2) by (cases rec) (simp add: xls_record_def)
    have step: "ParseXLS_rows c k sheet rec records (n # ns) =
        (if ctxDone c k then Return ?records (Some (ctxErr c))
         else ParseXLS_rows c (Suc k) sheet ?rec ?records ns)"
      using n unfolding ParseXLS_rows.simps row
      by (simp only: option.case if_False Let_def r)
    have rd: "xls_rows sheet (n # ns) = ?rec # xls_rows sheet ns"
      using row n by (simp add: xls_rows_def)
    have inv: "BIC ?rec = []" by (simp add: xls_record_def)
    have app: "?records = records @ List.map_filter checkAppend_kept [?rec]"
      by (simp add: checkAppend_kept[of records] split: option.splits)
    show ?thesis
    proof (cases "ctxDone c k")
      case True
      then have h: "hit = ?records" "err = Some (ctxErr c)"
        using Cons.prems(1) step by simp_all
      have "prefix [?rec] (xls_rows sheet (n # ns))"
        unfolding rd by simp
      then show ?thesis using h app by blast
    next
      case False
      then have "ParseXLS_rows c (Suc k) sheet ?rec ?records ns = Return hit err"
        using Cons.prems(1) step by simp
      from Cons.IH[OF this inv]
      obtain p where p: "prefix p (xls_rows sheet ns)"
          "hit = ?records @ List.map_filter checkAppend_kept p"
        and a: "err = None \<longrightarrow> hit = ?records @ List.map_filter checkAppend_kept (xls_rows sheet ns)"
        by blast
      have "prefix (?rec # p) (xls_rows sheet (n # ns))"
        unfolding rd using p(1) by simp
      moreover have "hit = records @ List.map_filter checkAppend_kept (?rec # p)"
        unfolding p(2) app by (simp only: map_filter_append[symmetric] append_assoc append.simps)
      moreover have "err = None \<longrightarrow>
          hit = records @ List.map_filter checkAppend_kept (xls_rows sheet (n # ns))"
      proof
        assume "err = None"
        then have "hit = ?records @ List.map_filter checkAppend_kept (xls_rows sheet ns)"
          using a by simp
        then show "hit = records @ List.map_filter checkAppend_kept (xls_rows sheet (n # ns))"
          unfolding rd app by (simp only: map_filter_append[symmetric] append_assoc append.simps)
      qed
      ultimately show ?thesis by blast
    qed
  qed
qed

lemma ParseXLS_order:
  assumes "ParseXLS c seekErr xlsx wb = Return hit err"
  shows "in_source_order (xls_source wb) hit err \<or> in_source_order (xlsx_source xlsx) hit err"
proof (cases wb)
  case (XlsOpenError e)
  show ?thesis
  proof (cases seekErr)
    case None
    then have "ParseXLSX c xlsx = Return hit err"
      using assms XlsOpenError by (simp add: ParseXLS_def)
    then show ?thesis by (simp add: ParseXLSX_order)
  next
    case (Some e')
    then show ?thesis using assms XlsOpenError by (auto simp: ParseXLS_def in_source_order_Nil)
  qed
next
  case (XlsWorkbook s)
  show ?thesis
  proof (cases s)
    case None
    then show ?thesis using assms XlsWorkbook by (auto simp: ParseXLS_def in_source_order_Nil)
  next
    case (Some sheet)
    then have "ParseXLS_rows c 0 sheet Hitelezo_zero [] [0..<MaxRow sheet] = Return hit err"
      using assms XlsWorkbook by (simp add: ParseXLS_def)
    moreover have "BIC Hitelezo_zero = []" by (simp add: Hitelezo_zero_def)
    ultimately obtain p where p: "prefix p (xls_rows sheet [0..<MaxRow sheet])"
        "hit = List.map_filter checkAppend_kept p"
      and a: "err = None \<longrightarrow>
        hit = List.map_filter checkAppend_kept (xls_rows sheet [0..<MaxRow sheet])"
      using ParseXLS_rows_order[of c 0 sheet Hitelezo_zero "[]" "[0..<MaxRow sheet]" hit err]
      by auto
    have s: "xls_source wb = xls_rows sheet [0..<MaxRow sheet]"
      by (simp add: xls_source_def XlsWorkbook Some)
    have "in_source_order (xls_source wb) hit err"
      unfolding s using p a by (rule in_source_order_I)
    then show ?thesis by simp
  qed
qed

lemma Parse_spreadsheet_order:
  assumes "Parse_spreadsheet env sr = Return hit err"
  shows "in_source_order (xlsx_source (excelize env sr)) hit err \<or>
     in_source_order (xls_source (xls env sr)) hit err"
proof (cases "ParseXLSX (cx env) (excelize env sr)")
  case Panic
  then show ?thesis using assms by (simp add: Parse_spreadsheet_def)
next
  case (Return h e)
  show ?thesis
  proof (cases "Parse_fallback e")
    case True
    then have "ParseXLS (cx env) None (excelize env sr) (xls env sr) = Return hit err"
      using assms Return by (simp add: Parse_spreadsheet_def)
    then show ?thesis using ParseXLS_order by blast
  next
    case False
    then have "ParseXLSX (cx env) (excelize env sr) = Return hit err"
      using assms Return by (simp add: Parse_spreadsheet_def)
    then show ?thesis by (simp add: ParseXLSX_order)
  qed
qed

lemma ParsePDF_order:
  assumes "ParsePDF env sr = Return hit err"
  shows "hit = tabula_source (tabula env sr) \<or>
     in_source_order (text_source (pdftotext env sr)) hit err"
proof (cases "parsePDFTabula (tabula env sr)")
  case Panic
  then show ?thesis using assms by (simp add: ParsePDF_def)
next
  case (Return h e)
  show ?thesis
  proof (cases "e = None")
    case True
    then have "hit = h" using assms Return by (simp add: ParsePDF_def)
    then show ?thesis using Return parsePDFTabula_order by blast
  next
    case False
    then have "parsePDFPdfToText (pdftotext env sr) = Return hit err"
      using assms Return by (auto simp: ParsePDF_def)
    then show ?thesis by (simp add: parsePDFPdfToText_order)
  qed
qed

section \<open>\<^verbatim>\<open>Parse\<close>\<close>

lemma prefix_take_iff: "prefix p (take n s) \<longleftrightarrow> prefix p s \<and> length p \<le> n"
proof
  assume a: "prefix p (take n s)"
  then have "prefix p s" using take_is_prefix prefix_order.trans by blast
  moreover have "length p \<le> n" using a prefix_length_le by fastforce
  ultimately show "prefix p s \<and> length p \<le> n" by simp
next
  assume a: "prefix p s \<and> length p \<le> n"
  then obtain t where "s = p @ t" by (auto simp: prefix_def)
  then show "prefix p (take n s)" using a by simp
qed

lemma Parse_route_long:
  assumes "1024 \<le> length bs" "length bs \<le> 2 ^ 20"
  shows "Parse_route env (Some (Reader bs None)) =
    (if prefix ''%PDF-1'' bs then ToPDF bs else ToSpreadsheet bs)"
  using assms
  by (simp add: Parse_route_def Parse_source_def MakeSectionReader_def ReadAt_def prefix_take_iff)

lemma Parse_route_pdf_bytes: "Parse_route env (Some (Reader pdf_bytes None)) = ToPDF pdf_bytes"
proof -
  have "length pdf_bytes = 1024" "prefix ''%PDF-1'' pdf_bytes"
    by (simp_all add: pdf_bytes_def)
  then show ?thesis by (simp add: Parse_route_long)
qed

lemma Parse_route_sheet_bytes:
  "Parse_route env (Some (Reader sheet_bytes None)) = ToSpreadsheet sheet_bytes"
proof -
  have "length sheet_bytes = 1024" "\<not> prefix ''%PDF-1'' sheet_bytes"
    by (simp_all add: sheet_bytes_def)
  then show ?thesis by (simp add: Parse_route_long)
qed

lemma Parse_spreadsheet_route:
  "Parse_route env r = ToSpreadsheet sr \<Longrightarrow>
   Parse env r = (case Parse_spreadsheet env sr of Panic \<Rightarrow> Panic
      | Return hit err \<Rightarrow> Return (cleanup 0 hit) err)"
  by (simp add: Parse_def)

lemma Parse_pdf_route: "Parse_route env r = ToPDF sr \<Longrightarrow> Parse env r = ParsePDF env sr"
  by (simp add: Parse_def)

lemma ParsePDF_text:
  "ParsePDF (env_text out) r = Return (fst (parseTXT out)) None"
  by (simp add: ParsePDF_def env_text_def env_of_def no_java_def parsePDFTabula_def
      parsePDFPdfToText_def parseTXT_def split: prod.splits)

lemma Parse_text: "Parse (env_text out) (Some (Reader pdf_bytes None)) = Return (fst (parseTXT out)) None"
  by (simp add: Parse_pdf_route[OF Parse_route_pdf_bytes] ParsePDF_text)

lemma Parse_page_MAK:
  "Parse (env_text page_MAK) (Some (Reader pdf_bytes None)) = Return [rec_MAK] None"
  by (simp add: Parse_text parseTXT_page_MAK)

lemma Parse_route_text:
  "Parse_route (env_text out) (Some (Reader pdf_bytes None)) = ToPDF pdf_bytes"
  by (rule Parse_route_pdf_bytes)

lemma tabula_env_text:
  "parsePDFTabula (tabula (env_text out) r) =
     Return [] (Some (Opaque ''start java: executable file not found''))"
  by (simp add: env_text_def env_of_def no_java_def parsePDFTabula_def)

lemma parseTXT_page_noname:
  "parseTXT page_noname =
    ([\<lparr>Bankszerv = ''10002003'', BIC = [], Nev = [], Irszam = ''1139'', Cim = ''Budapest''\<rparr>], None)"
proof -
  have s: "scanLines [] page_noname = [''10002003'', '' '', ''1139'', ''Budapest'', [CHR 0x0C]]"
    unfolding page_noname_def by (simp add: dropCR_def)
  have l: "parseTXT_loop False [] [] [''10002003'', '' '', ''1139'', ''Budapest'', [CHR 0x0C]] =
     ([], processLines [''10002003'', [], ''1139'', ''Budapest''] [])"
    by (simp add: isDigit_def suffix_to_prefix TrimSpace_eval)
  have c: "checkAppend [] \<lparr>Bankszerv = ''10002003'', BIC = [], Nev = [], Irszam = ''1139'', Cim = ''Budapest''\<rparr> =
     [\<lparr>Bankszerv = ''10002003'', BIC = [], Nev = [], Irszam = ''1139'', Cim = ''Budapest''\<rparr>]"
    by (simp add: checkAppend_eval TrimSpace_eval)
  show ?thesis unfolding parseTXT_def s l processLines_4 c by (simp add: processLines_Nil)
qed

lemma parseTXT_page_noaddr:
  "parseTXT page_noaddr =
    ([\<lparr>Bankszerv = ''10002003'', BIC = [], Nev = ''Bank'', Irszam = [], Cim = []\<rparr>], None)"
proof -
  have s: "scanLines [] page_noaddr = [''10002003'', ''Bank'', '' '', '' '', [CHR 0x0C]]"
    unfolding page_noaddr_def by (simp add: dropCR_def)
  have l: "parseTXT_loop False [] [] [''10002003'', ''Bank'', '' '', '' '', [CHR 0x0C]] =
     ([], processLines [''10002003'', ''Bank'', [], []] [])"
    by (simp add: isDigit_def suffix_to_prefix TrimSpace_eval)
  have c: "checkAppend [] \<lparr>Bankszerv = ''10002003'', BIC = [], Nev = ''Bank'', Irszam = [], Cim = []\<rparr> =
     [\<lparr>Bankszerv = ''10002003'', BIC = [], Nev = ''Bank'', Irszam = [], Cim = []\<rparr>]"
    by (simp add: checkAppend_eval TrimSpace_eval)
  show ?thesis unfolding parseTXT_def s l processLines_4 c by (simp add: processLines_Nil)
qed

lemma checkAppend_ABC:
  "checkAppend recs rec_A = recs @ [rec_A]"
  "checkAppend recs rec_B = recs @ [rec_B]"
  "checkAppend recs rec_C = recs @ [rec_C]"
  by (simp_all add: rec_A_def rec_B_def rec_C_def checkAppend_eval TrimSpace_eval)

lemma checkAppend_BC:
  "checkAppend recs rec_B = recs @ [rec_B]" "checkAppend recs rec_C = recs @ [rec_C]"
  by (rule checkAppend_ABC)+

lemma ParseXLSX_rows_ABC:
  "ParseXLSX ctx_live (XlsxRows (map Inr rows_ABC)) = Return [rec_A, rec_B, rec_C] None"
  using checkAppend_ABC[of "[]"] checkAppend_ABC[of "[rec_A]"] checkAppend_ABC[of "[rec_A, rec_B]"]
  by (simp add: ParseXLSX_def rows_ABC_def ctx_live_def Hitelezo_zero_def rec_A_def rec_B_def rec_C_def)

lemma Parse_spreadsheet_ABC:
  "Parse_spreadsheet (env_sheet rows_ABC) sr = Return [rec_A, rec_B, rec_C] None"
  by (simp add: Parse_spreadsheet_def env_sheet_def env_of_def ParseXLSX_rows_ABC Parse_fallback_def)

lemma Parse_spreadsheet_BC:
  "Parse_spreadsheet (env_sheet rows_BC) sr = Return [rec_B, rec_C] None"
proof -
  have "ParseXLSX ctx_live (XlsxRows (map Inr rows_BC)) = Return [rec_B, rec_C] None"
    using checkAppend_BC[of "[]"] checkAppend_BC[of "[rec_B]"]
    by (simp add: ParseXLSX_def rows_BC_def ctx_live_def Hitelezo_zero_def rec_B_def rec_C_def)
  then show ?thesis
    by (simp add: Parse_spreadsheet_def env_sheet_def env_of_def Parse_fallback_def)
qed

lemma cleanup_ABC: "cleanup 0 [rec_A, rec_B, rec_C] = [rec_C, rec_B]"
proof -
  have i: "invalid rec_A" "\<not> invalid rec_B" "\<not> invalid rec_C"
    by (simp_all add: invalid_def rec_A_def rec_B_def rec_C_def)
  have "cleanup 0 [rec_A, rec_B, rec_C] = cleanup 0 [rec_C, rec_B]"
    using i by (simp add: cleanup_drop)
  also have "\<dots> = cleanup (Suc 0) [rec_C, rec_B]" using i by (simp add: cleanup_keep)
  also have "\<dots> = cleanup (Suc (Suc 0)) [rec_C, rec_B]" using i by (simp add: cleanup_keep)
  also have "\<dots> = [rec_C, rec_B]" by (simp add: cleanup_stop)
  finally show ?thesis .
qed

lemma Parse_rows_ABC:
  "Parse (env_sheet rows_ABC) (Some (Reader sheet_bytes None)) = Return [rec_C, rec_B] None"
  by (simp add: Parse_spreadsheet_route[OF Parse_route_sheet_bytes] Parse_spreadsheet_ABC cleanup_ABC)

text \<open>
  Claim C9: a stream shorter than 1024 bytes makes \<^verbatim>\<open>Parse\<close> return no records and an
  error, whatever the bytes are: \<^verbatim>\<open>io.EOF\<close> from the short read of the 1024-byte
  prefix when the stream itself ends well, and otherwise the error of the stream, wrapped
  by \<^verbatim>\<open>iohlp.MakeSectionReader\<close> as \<^verbatim>\<open>read below threshold: ...\<close>. The
  stream is the reader given, or the downloaded default document for a nil reader.
\<close>

theorem Parse_short_stream:
  "Parse_source env r = Inr (Reader bs e) \<Longrightarrow> length bs < 1024 \<Longrightarrow>
   Parse env r =
     Return [] (Some (case e of
                        None \<Rightarrow> EOF
                      | Some x \<Rightarrow> Wrap (''read below threshold: '' @ Error x) [x]))"
  by (cases e) (simp_all add: Parse_def Parse_route_def MakeSectionReader_def ReadAt_def)

text \<open>
  Claim C9 at work: an eight-byte stream that \<^verbatim>\<open>ParsePDF\<close> alone turns into one record.
\<close>

theorem Parse_short_stream_witness:
  "Parse_source (env_text page_MAK) (Some (Reader ''%PDF-1.4'' None)) =
     Inr (Reader ''%PDF-1.4'' None) \<and>
   length ''%PDF-1.4'' < 1024 \<and>
   ParsePDF (env_text page_MAK) ''%PDF-1.4'' = Return [rec_MAK] None \<and>
   Parse (env_text page_MAK) (Some (Reader ''%PDF-1.4'' None)) = Return [] (Some EOF)"
proof -
  have s: "Parse_source (env_text page_MAK) (Some (Reader ''%PDF-1.4'' None)) =
     Inr (Reader ''%PDF-1.4'' None)"
    by (simp add: Parse_source_def)
  have l: "length ''%PDF-1.4'' < 1024" by simp
  have p: "ParsePDF (env_text page_MAK) ''%PDF-1.4'' = Return [rec_MAK] None"
    by (simp add: ParsePDF_text parseTXT_page_MAK)
  show ?thesis using Parse_short_stream [OF s l] s p by simp
qed

text \<open>
  Claim C1, as stated: every record that \<^verbatim>\<open>Parse\<close> returns, on the PDF path too, has
  a branch code of 8 characters, a name, and a postal code or an address. On the PDF path
  \<^verbatim>\<open>Parse\<close> returns what \<^verbatim>\<open>ParsePDF\<close> returns; here the table tool cannot be
  started, the text tool prints a page whose second line is a single space, and the
  record returned has no name.
\<close>

theorem Parse_pdf_empty_name:
  "Parse (env_text page_noname) (Some (Reader pdf_bytes None)) =
     Return [\<lparr>Bankszerv = ''10002003'', BIC = [], Nev = [], Irszam = ''1139'',
              Cim = ''Budapest''\<rparr>] None \<and>
   \<not> valid_record \<lparr>Bankszerv = ''10002003'', BIC = [], Nev = [], Irszam = ''1139'',
              Cim = ''Budapest''\<rparr>"
  by (simp add: Parse_text parseTXT_page_noname valid_record_def)

text \<open>
  Claim C1, amended: every record that \<^verbatim>\<open>Parse\<close> returns through the modern or the
  legacy spreadsheet path is valid: its branch code has exactly 8 bytes after
  normalization, its name is not empty, and its postal code or its address is not
  empty. Every record that it returns through the PDF path after the table tool failed
  (the text fallback) has passed \<^verbatim>\<open>checkAppend\<close>: it is not the empty record and its
  branch code has exactly 8 bytes.
\<close>

theorem Parse_valid_records:
  "Parse env r = Return hit err \<Longrightarrow>
   (Parse_route env r = ToSpreadsheet sr \<longrightarrow> list_all valid_record hit) \<and>
   (Parse_route env r = ToPDF sr \<and> parsePDFTabula (tabula env sr) = Return hit0 (Some e) \<longrightarrow>
      list_all accepted hit)"
proof (intro conjI impI)
  assume p: "Parse env r = Return hit err" and "Parse_route env r = ToSpreadsheet sr"
  then obtain h0 where h0: "Parse_spreadsheet env sr = Return h0 err" "hit = cleanup 0 h0"
    by (auto simp: Parse_spreadsheet_route split: result.splits)
  then have "list_all accepted h0" by (auto dest: Parse_spreadsheet_accepted)
  then have "\<forall>h\<in>set hit. accepted h \<and> \<not> invalid h"
    by (auto simp: h0 cleanup_set list_all_iff)
  then show "list_all valid_record hit"
    by (auto simp: list_all_iff valid_record_iff accepted_def)
next
  assume p: "Parse env r = Return hit err"
    and "Parse_route env r = ToPDF sr \<and> parsePDFTabula (tabula env sr) = Return hit0 (Some e)"
  then have "parsePDFPdfToText (pdftotext env sr) = Return hit err"
    by (simp add: Parse_pdf_route ParsePDF_def)
  then show "list_all accepted hit" by (rule parsePDFPdfToText_accepted)
qed

theorem Parse_valid_records_witness:
  "Parse (env_sheet rows_ABC) (Some (Reader sheet_bytes None)) = Return [rec_C, rec_B] None \<and>
   Parse_route (env_sheet rows_ABC) (Some (Reader sheet_bytes None)) = ToSpreadsheet sheet_bytes \<and>
   list_all valid_record [rec_C, rec_B] \<and>
   Parse (env_text page_MAK) (Some (Reader pdf_bytes None)) = Return [rec_MAK] None \<and>
   Parse_route (env_text page_MAK) (Some (Reader pdf_bytes None)) = ToPDF pdf_bytes \<and>
   parsePDFTabula (tabula (env_text page_MAK) pdf_bytes) =
     Return [] (Some (Opaque ''start java: executable file not found'')) \<and>
   list_all accepted [rec_MAK]"
proof -
  note a = Parse_valid_records [OF Parse_rows_ABC, where sr = sheet_bytes]
  note b = Parse_valid_records [OF Parse_page_MAK, where sr = pdf_bytes and ?hit0.0 = "[]"
      and e = "Opaque ''start java: executable file not found''"]
  have "list_all valid_record [rec_C, rec_B]"
    using a Parse_route_sheet_bytes by blast
  moreover have "list_all accepted [rec_MAK]"
    using b Parse_route_text tabula_env_text by blast
  ultimately show ?thesis
    using Parse_rows_ABC Parse_page_MAK Parse_route_sheet_bytes Parse_route_text tabula_env_text
    by simp
qed

text \<open>
  Claim C2, as stated: on every path, the PDF path too, a final cleanup pass removes
  the records without branch code, without name, or without postal code and address.
  On the PDF path there is no such pass; here the text tool prints a page whose third
  and fourth lines are single spaces, and the record returned has neither postal code
  nor address.
\<close>

theorem Parse_pdf_empty_address:
  "Parse (env_text page_noaddr) (Some (Reader pdf_bytes None)) =
     Return [\<lparr>Bankszerv = ''10002003'', BIC = [], Nev = ''Bank'', Irszam = [],
              Cim = []\<rparr>] None \<and>
   invalid \<lparr>Bankszerv = ''10002003'', BIC = [], Nev = ''Bank'', Irszam = [], Cim = []\<rparr>"
  by (simp add: Parse_text parseTXT_page_noaddr invalid_def)

text \<open>
  Claim C2, amended: after parsing by the modern or the legacy spreadsheet path,
  \<^verbatim>\<open>Parse\<close> applies the cleanup pass to the sequence of the parser, so the sequence
  it returns has no record whose branch code is empty, whose name is empty, or whose
  postal code and address are both empty. On the PDF path it returns the result of
  \<^verbatim>\<open>ParsePDF\<close> as it is.
\<close>

theorem Parse_cleanup:
  "(Parse_route env r = ToSpreadsheet sr \<and> Parse env r = Return hit err \<longrightarrow>
      list_all (\<lambda>h. \<not> invalid h) hit \<and>
      (\<exists>hit0. Parse_spreadsheet env sr = Return hit0 err \<and> hit = cleanup 0 hit0)) \<and>
   (Parse_route env r = ToPDF sr \<longrightarrow> Parse env r = ParsePDF env sr)"
  by (auto simp: Parse_spreadsheet_route Parse_pdf_route cleanup_list_all split: result.splits)

theorem Parse_cleanup_witness:
  "Parse_route (env_sheet rows_ABC) (Some (Reader sheet_bytes None)) = ToSpreadsheet sheet_bytes \<and>
   Parse (env_sheet rows_ABC) (Some (Reader sheet_bytes None)) = Return [rec_C, rec_B] None \<and>
   Parse_spreadsheet (env_sheet rows_ABC) sheet_bytes = Return [rec_A, rec_B, rec_C] None \<and>
   list_all (\<lambda>h. \<not> invalid h) [rec_C, rec_B] \<and>
   Parse_route (env_text page_MAK) (Some (Reader pdf_bytes None)) = ToPDF pdf_bytes \<and>
   Parse (env_text page_MAK) (Some (Reader pdf_bytes None)) =
     ParsePDF (env_text page_MAK) pdf_bytes"
proof -
  note a = Parse_cleanup [of "env_sheet rows_ABC" "Some (Reader sheet_bytes None)" sheet_bytes
      "[rec_C, rec_B]" None]
  note b = Parse_cleanup [of "env_text page_MAK" "Some (Reader pdf_bytes None)" pdf_bytes]
  have "list_all (\<lambda>h. \<not> invalid h) [rec_C, rec_B]"
    using a Parse_route_sheet_bytes Parse_rows_ABC by blast
  moreover have "Parse (env_text page_MAK) (Some (Reader pdf_bytes None)) =
     ParsePDF (env_text page_MAK) pdf_bytes"
    using b Parse_route_text by blast
  ultimately show ?thesis
    using Parse_rows_ABC Parse_route_sheet_bytes Parse_route_text Parse_spreadsheet_ABC by simp
qed

text \<open>
  Claim C3, as stated: the cleanup pass keeps the relative order of the records it
  keeps. It overwrites a removed record by the last record of the sequence: of the rows
  A (without name), B, C the parser makes the sequence A, B, C, and \<^verbatim>\<open>Parse\<close> returns
  C, B.
\<close>

theorem Parse_reorders:
  "Parse_spreadsheet (env_sheet rows_ABC) sheet_bytes = Return [rec_A, rec_B, rec_C] None \<and>
   Parse (env_sheet rows_ABC) (Some (Reader sheet_bytes None)) = Return [rec_C, rec_B] None \<and>
   filter (\<lambda>h. \<not> invalid h) [rec_A, rec_B, rec_C] = [rec_B, rec_C] \<and>
   [rec_C, rec_B] \<noteq> [rec_B, rec_C]"
  by (simp add: Parse_spreadsheet_route[OF Parse_route_sheet_bytes] Parse_spreadsheet_ABC
      cleanup_ABC)
    (simp add: invalid_def rec_A_def rec_B_def rec_C_def)

text \<open>
  Claim C3, amended: the sequence that a parser builds holds the records in the order in
  which their rows are met in the source: the CSV records of the table tool as they are,
  and what \<^verbatim>\<open>checkAppend\<close> keeps of the rows of the text pages and of the sheet. On
  the PDF path \<^verbatim>\<open>Parse\<close> returns that sequence, so the order of the source is
  preserved. On the spreadsheet paths it returns exactly the records of that sequence that
  the cleanup pass does not remove, each as often as it occurs there; the order is that
  of the source when the pass removes nothing, and otherwise the pass may have changed
  it.
\<close>

theorem Parse_source_order:
  "Parse env r = Return hit err \<Longrightarrow>
   (Parse_route env r = ToPDF sr \<longrightarrow>
      hit = tabula_source (tabula env sr) \<or>
      in_source_order (text_source (pdftotext env sr)) hit err) \<and>
   (Parse_route env r = ToSpreadsheet sr \<longrightarrow>
      (\<exists>hit0. Parse_spreadsheet env sr = Return hit0 err \<and>
         (in_source_order (xlsx_source (excelize env sr)) hit0 err \<or>
          in_source_order (xls_source (xls env sr)) hit0 err) \<and>
         mset hit = filter_mset (\<lambda>h. \<not> invalid h) (mset hit0) \<and>
         (list_all (\<lambda>h. \<not> invalid h) hit0 \<longrightarrow> hit = hit0)))"
proof (intro conjI impI)
  assume "Parse env r = Return hit err" and "Parse_route env r = ToPDF sr"
  then have "ParsePDF env sr = Return hit err" by (simp add: Parse_pdf_route)
  then show "hit = tabula_source (tabula env sr) \<or>
      in_source_order (text_source (pdftotext env sr)) hit err"
    by (rule ParsePDF_order)
next
  assume p: "Parse env r = Return hit err" and "Parse_route env r = ToSpreadsheet sr"
  then obtain hit0 where h: "Parse_spreadsheet env sr = Return hit0 err" "hit = cleanup 0 hit0"
    by (auto simp: Parse_spreadsheet_route split: result.splits)
  have "in_source_order (xlsx_source (excelize env sr)) hit0 err \<or>
      in_source_order (xls_source (xls env sr)) hit0 err"
    using h(1) by (rule Parse_spreadsheet_order)
  moreover have "mset hit = filter_mset (\<lambda>h. \<not> invalid h) (mset hit0)"
    by (simp add: h(2) cleanup_mset)
  moreover have "list_all (\<lambda>h. \<not> invalid h) hit0 \<longrightarrow> hit = hit0"
    by (simp add: h(2) cleanup_id list_all_iff)
  ultimately show "\<exists>hit0. Parse_spreadsheet env sr = Return hit0 err \<and>
         (in_source_order (xlsx_source (excelize env sr)) hit0 err \<or>
          in_source_order (xls_source (xls env sr)) hit0 err) \<and>
         mset hit = filter_mset (\<lambda>h. \<not> invalid h) (mset hit0) \<and>
         (list_all (\<lambda>h. \<not> invalid h) hit0 \<longrightarrow> hit = hit0)"
    using h(1) by blast
qed

text \<open>
  Claim C3 at work: a PDF whose text is the sample page, and a sheet with the rows B
  and C.
\<close>

theorem Parse_source_order_witness:
  "Parse (env_text page_MAK) (Some (Reader pdf_bytes None)) = Return [rec_MAK] None \<and>
   Parse_route (env_text page_MAK) (Some (Reader pdf_bytes None)) = ToPDF pdf_bytes \<and>
   in_source_order (text_source (pdftotext (env_text page_MAK) pdf_bytes)) [rec_MAK] None \<and>
   Parse (env_sheet rows_BC) (Some (Reader sheet_bytes None)) = Return [rec_B, rec_C] None \<and>
   Parse_route (env_sheet rows_BC) (Some (Reader sheet_bytes None)) = ToSpreadsheet sheet_bytes \<and>
   Parse_spreadsheet (env_sheet rows_BC) sheet_bytes = Return [rec_B, rec_C] None \<and>
   xlsx_source (excelize (env_sheet rows_BC) sheet_bytes) = [rec_B, rec_C] \<and>
   in_source_order (xlsx_source (excelize (env_sheet rows_BC) sheet_bytes)) [rec_B, rec_C] None \<and>
   list_all (\<lambda>h. \<not> invalid h) [rec_B, rec_C]"
proof -
  have v: "list_all (\<lambda>h. \<not> invalid h) [rec_B, rec_C]"
    by (simp add: invalid_def rec_B_def rec_C_def)
  have pb: "Parse (env_sheet rows_BC) (Some (Reader sheet_bytes None)) = Return [rec_B, rec_C] None"
    by (simp add: Parse_spreadsheet_route[OF Parse_route_sheet_bytes] Parse_spreadsheet_BC
        cleanup_id[of "[rec_B, rec_C]" 0] v[unfolded list_all_iff])
  have t: "tabula_source (tabula (env_text page_MAK) pdf_bytes) = []"
    by (simp add: env_text_def env_of_def no_java_def tabula_source_def)
  have x: "xls_source (xls (env_sheet rows_BC) sheet_bytes) = []"
    by (simp add: env_sheet_def env_of_def xls_source_def)
  have s: "xlsx_source (excelize (env_sheet rows_BC) sheet_bytes) = [rec_B, rec_C]"
    by (simp add: env_sheet_def env_of_def xlsx_source_def rows_BC_def xlsx_record_def
        rec_B_def rec_C_def)
  have nx: "\<not> in_source_order [] [rec_B, rec_C] None"
    by (simp add: in_source_order_def)
  note a = Parse_source_order [OF Parse_page_MAK, of pdf_bytes]
  note b = Parse_source_order [OF pb, of sheet_bytes]
  have "in_source_order (text_source (pdftotext (env_text page_MAK) pdf_bytes)) [rec_MAK] None"
    using a Parse_route_text[of page_MAK] unfolding t by simp
  moreover have "in_source_order (xlsx_source (excelize (env_sheet rows_BC) sheet_bytes))
      [rec_B, rec_C] None"
    using b Parse_route_sheet_bytes[of "env_sheet rows_BC"] Parse_spreadsheet_BC[of sheet_bytes] nx
    unfolding x by auto
  ultimately show ?thesis
    using v pb s Parse_page_MAK Parse_route_text Parse_route_sheet_bytes Parse_spreadsheet_BC
    by simp
qed

lemma parsePDFTabula_rows_map:
  "\<forall>row\<in>set rows. 4 \<le> length row \<Longrightarrow>
   parsePDFTabula_rows hit rows =
     Some (hit @ map (\<lambda>row. \<lparr>Bankszerv = row ! 0, BIC = [], Nev = row ! 1, Irszam = row ! 2,
                               Cim = row ! 3\<rparr>) rows)"
  by (induction rows arbitrary: hit) simp_all

lemma parsePDFTabula_rows_None:
  "parsePDFTabula_rows hit rows = None \<longleftrightarrow> (\<exists>row\<in>set rows. length row < 4)"
  by (induction rows arbitrary: hit) auto

lemma ParseXLSX_rows_safe:
  "\<forall>row. Inr row \<in> set xrows \<longrightarrow> 4 \<le> length row \<Longrightarrow>
   ParseXLSX_rows c k hs ni rec records xrows \<noteq> Panic"
proof (induction xrows arbitrary: k hs ni rec records)
  case Nil
  then show ?case by simp
next
  case (Cons x xrows)
  then show ?case by (cases x) (auto simp: Let_def)
qed

lemma ParseXLSX_rows_panic:
  "\<exists>row\<in>set rows. length row < 4 \<Longrightarrow> \<forall>k. \<not> ctxDone c k \<Longrightarrow>
   ParseXLSX_rows c k hs ni rec records (map Inr rows) = Panic"
proof (induction rows arbitrary: k hs ni rec records)
  case Nil
  then show ?case by simp
next
  case (Cons row rows)
  show ?case
  proof (cases "length row < 4")
    case True
    then show ?thesis by auto
  next
    case False
    then have "\<exists>row\<in>set rows. length row < 4" using Cons.prems(1) by auto
    then show ?thesis using False Cons.IH Cons.prems(2) by (simp add: Let_def)
  qed
qed

text \<open>
  Claim C10: \<^verbatim>\<open>parsePDFTabula\<close> and \<^verbatim>\<open>ParseXLSX\<close> index the first four fields of a
  row without a check. \<^verbatim>\<open>parsePDFTabula\<close> panics exactly when some record that the CSV
  reader delivers has fewer than four fields. \<^verbatim>\<open>ParseXLSX\<close> does not panic when every
  row it can read has at least four cells, and it panics when some row has fewer and the
  loop reaches it (every row can be read and the context is never cancelled).
\<close>

theorem unchecked_row_indexing:
  "(parsePDFTabula (TabulaCSV rows readErr waitErr) = Panic \<longleftrightarrow>
      (\<exists>row\<in>set rows. length row < 4)) \<and>
   ((\<forall>row. Inr row \<in> set xrows \<longrightarrow> 4 \<le> length row) \<longrightarrow>
      ParseXLSX c (XlsxRows xrows) \<noteq> Panic) \<and>
   ((\<exists>row\<in>set rows. length row < 4) \<and> (\<forall>k. \<not> ctxDone c k) \<longrightarrow>
      ParseXLSX c (XlsxRows (map Inr rows)) = Panic)"
proof (intro conjI impI)
  show "parsePDFTabula (TabulaCSV rows readErr waitErr) = Panic \<longleftrightarrow>
      (\<exists>row\<in>set rows. length row < 4)"
    using parsePDFTabula_rows_None[of "[]" rows]
    by (auto simp: parsePDFTabula_def split: option.splits)
next
  assume "\<forall>row. Inr row \<in> set xrows \<longrightarrow> 4 \<le> length row"
  then show "ParseXLSX c (XlsxRows xrows) \<noteq> Panic"
    by (simp add: ParseXLSX_def ParseXLSX_rows_safe)
next
  assume "(\<exists>row\<in>set rows. length row < 4) \<and> (\<forall>k. \<not> ctxDone c k)"
  then show "ParseXLSX c (XlsxRows (map Inr rows)) = Panic"
    by (simp add: ParseXLSX_def ParseXLSX_rows_panic)
qed

theorem unchecked_row_indexing_witness:
  "parsePDFTabula (TabulaCSV [short_row] None None) = Panic \<and>
   ParseXLSX ctx_live (XlsxRows (map Inr rows_ABC)) \<noteq> Panic \<and>
   ParseXLSX ctx_live (XlsxRows (map Inr [short_row])) = Panic"
proof -
  note t = unchecked_row_indexing [of "[short_row]" None None "map Inr rows_ABC" ctx_live]
  have s: "\<exists>row\<in>set [short_row]. length row < 4" by (simp add: short_row_def)
  have l: "\<forall>k. \<not> ctxDone ctx_live k" by (simp add: ctx_live_def)
  have r: "\<forall>row. Inr row \<in> set (map Inr rows_ABC) \<longrightarrow> 4 \<le> length row"
    by (auto simp: rows_ABC_def)
  show ?thesis using t s l r by blast
qed

section \<open>The default pattern\<close>

lemmas MatchString_eval = MatchString_def DefaultPattern_def xlsName_def ehtName_def ehtDate_def avtName_def ext_def Lit_def Dot_def Digit_def
  OneOf_def Opt_def isDigit_def eval_nat_numeral

lemma conc_Cons_iff:
  "c # w \<in> conc A B \<longleftrightarrow>
     (\<exists>u v. w = u @ v \<and> c # u \<in> A \<and> v \<in> B) \<or> ([] \<in> A \<and> c # w \<in> B)"
proof
  assume "c # w \<in> conc A B"
  then obtain u v where uv: "c # w = u @ v" "u \<in> A" "v \<in> B"
    by (auto simp: conc_def)
  show "(\<exists>u v. w = u @ v \<and> c # u \<in> A \<and> v \<in> B) \<or> ([] \<in> A \<and> c # w \<in> B)"
  proof (cases u)
    case Nil
    then show ?thesis using uv by simp
  next
    case (Cons a u')
    then show ?thesis using uv by auto
  qed
next
  assume "(\<exists>u v. w = u @ v \<and> c # u \<in> A \<and> v \<in> B) \<or> ([] \<in> A \<and> c # w \<in> B)"
  then show "c # w \<in> conc A B"
  proof
    assume "\<exists>u v. w = u @ v \<and> c # u \<in> A \<and> v \<in> B"
    then obtain u v where "w = u @ v" "c # u \<in> A" "v \<in> B" by blast
    then have "(c # u) @ v \<in> conc A B" unfolding conc_def by blast
    then show ?thesis using \<open>w = u @ v\<close> by simp
  next
    assume "[] \<in> A \<and> c # w \<in> B"
    then have "[] @ (c # w) \<in> conc A B" unfolding conc_def by blast
    then show ?thesis by simp
  qed
qed

lemma star_Cons_iff:
  "c # w \<in> star A \<longleftrightarrow> (\<exists>u v. w = u @ v \<and> c # u \<in> A \<and> v \<in> star A)"
proof
  assume "c # w \<in> star A"
  then show "\<exists>u v. w = u @ v \<and> c # u \<in> A \<and> v \<in> star A"
  proof (induction "c # w" rule: star.induct)
    case (star_app u v)
    show ?case
    proof (cases u)
      case Nil
      then show ?thesis using star_app by simp
    next
      case (Cons a u')
      then show ?thesis using star_app by auto
    qed
  qed
next
  assume "\<exists>u v. w = u @ v \<and> c # u \<in> A \<and> v \<in> star A"
  then obtain u v where "w = u @ v" "c # u \<in> A" "v \<in> star A" by blast
  then have "(c # u) @ v \<in> star A" by (intro star_app)
  then show "c # w \<in> star A" using \<open>w = u @ v\<close> by simp
qed

lemma nullable_lang: "nullable r \<longleftrightarrow> [] \<in> lang r"
  by (induction r) (auto simp: conc_def intro: star_Nil)

lemma lang_deriv: "w \<in> lang (deriv c r) \<longleftrightarrow> c # w \<in> lang r"
proof (induction r arbitrary: w)
  case (Seq r s)
  then show ?case
    by (auto simp: conc_Cons_iff nullable_lang) (auto simp: conc_def)
next
  case (Star r)
  then show ?case by (auto simp: star_Cons_iff) (auto simp: conc_def)
qed auto

lemma MatchString_lang: "MatchString r s \<longleftrightarrow> s \<in> lang r"
proof -
  have "nullable (foldl (\<lambda>r c. deriv c r) r s) \<longleftrightarrow> s \<in> lang r" for r
    by (induction s arbitrary: r) (simp_all add: nullable_lang lang_deriv)
  then show ?thesis by (simp add: MatchString_def)
qed

lemma conc_iff: "w \<in> conc A B \<longleftrightarrow> (\<exists>u v. w = u @ v \<and> u \<in> A \<and> v \<in> B)"
  by (auto simp: conc_def)

lemma lang_Lit: "lang (Lit c) = {[c]}"
  by (auto simp: Lit_def)

lemma lang_Str: "lang (Str s) = {s}"
  by (induction s) (auto simp: lang_Lit conc_def)

lemma concI: "u \<in> A \<Longrightarrow> v \<in> B \<Longrightarrow> u @ v \<in> conc A B"
  by (auto simp: conc_def)

lemma in_conc_Atom:
  "w \<in> conc (lang (Atom p)) B \<longleftrightarrow> w \<noteq> [] \<and> p (hd w) \<and> tl w \<in> B"
proof (cases w)
  case Nil
  then show ?thesis by (simp add: conc_iff)
next
  case (Cons a v)
  show ?thesis
  proof
    assume "w \<in> conc (lang (Atom p)) B"
    then show "w \<noteq> [] \<and> p (hd w) \<and> tl w \<in> B"
      by (auto simp: conc_iff Cons)
  next
    assume "w \<noteq> [] \<and> p (hd w) \<and> tl w \<in> B"
    then have "[a] @ v \<in> conc (lang (Atom p)) B"
      by (intro concI) (simp_all add: Cons)
    then show "w \<in> conc (lang (Atom p)) B" by (simp add: Cons)
  qed
qed

lemma lang_Times_Atom: "lang (Times n (Atom p)) = {w. length w = n \<and> list_all p w}"
proof (induction n)
  case 0
  then show ?case by auto
next
  case (Suc n)
  have "w \<in> lang (Times (Suc n) (Atom p)) \<longleftrightarrow> length w = Suc n \<and> list_all p w" for w
    unfolding Times.simps lang.simps(4) in_conc_Atom Suc by (cases w) auto
  then show ?case by blast
qed

lemma in_conc_fixed:
  assumes "\<And>u. u \<in> A \<Longrightarrow> length u = n"
  shows "w \<in> conc A B \<longleftrightarrow> n \<le> length w \<and> take n w \<in> A \<and> drop n w \<in> B"
proof
  assume "w \<in> conc A B"
  then obtain u v where "w = u @ v" "u \<in> A" "v \<in> B" by (auto simp: conc_iff)
  then show "n \<le> length w \<and> take n w \<in> A \<and> drop n w \<in> B"
    using assms[of u] by simp
next
  assume "n \<le> length w \<and> take n w \<in> A \<and> drop n w \<in> B"
  then have "take n w @ drop n w \<in> conc A B" by (intro concI) simp_all
  then show "w \<in> conc A B" by simp
qed

lemma in_conc_Str:
  "w \<in> conc (lang (Str s)) B \<longleftrightarrow> prefix s w \<and> drop (length s) w \<in> B"
proof -
  have "w \<in> conc (lang (Str s)) B \<longleftrightarrow>
      length s \<le> length w \<and> take (length s) w \<in> lang (Str s) \<and> drop (length s) w \<in> B"
    by (rule in_conc_fixed) (simp add: lang_Str)
  also have "\<dots> \<longleftrightarrow> prefix s w \<and> drop (length s) w \<in> B"
  proof -
    have "length s \<le> length w \<and> take (length s) w = s \<longleftrightarrow> prefix s w"
      by (metis append_eq_conv_conj prefix_def prefix_length_le take_is_prefix)
    then show ?thesis by (auto simp: lang_Str)
  qed
  finally show ?thesis .
qed

lemma in_conc_Lit: "w \<in> conc (lang (Lit c)) B \<longleftrightarrow> w \<noteq> [] \<and> hd w = c \<and> tl w \<in> B"
  unfolding Lit_def in_conc_Atom by auto

lemma in_conc_Times:
  "w \<in> conc (lang (Times n (Atom p))) B \<longleftrightarrow>
     n \<le> length w \<and> list_all p (take n w) \<and> drop n w \<in> B"
proof -
  have "w \<in> conc (lang (Times n (Atom p))) B \<longleftrightarrow>
      n \<le> length w \<and> take n w \<in> lang (Times n (Atom p)) \<and> drop n w \<in> B"
    by (rule in_conc_fixed) (simp add: lang_Times_Atom)
  then show ?thesis by (auto simp: lang_Times_Atom)
qed

lemma lang_ext: "lang ext = {''pdf'', ''xls'', ''xlsx''}"
  by (auto simp: ext_def Opt_def lang_Str lang_Lit conc_def simp del: Str.simps)

lemma Contains_prefix: "sub \<noteq> [] \<Longrightarrow> prefix sub s \<Longrightarrow> Contains s sub"
  by (cases s) auto

lemma Contains_append: "sub \<noteq> [] \<Longrightarrow> Contains (u @ sub @ v) sub"
  by (induction u) (simp_all add: Contains_prefix)

lemma Contains_set: "Contains s sub \<Longrightarrow> set sub \<subseteq> set s"
proof (induction s)
  case Nil
  then show ?case by simp
next
  case (Cons a s)
  from Cons.prems have "prefix sub (a # s) \<or> Contains s sub" by simp
  then show ?case
  proof
    assume "prefix sub (a # s)"
    then show ?thesis by (rule set_mono_prefix)
  next
    assume "Contains s sub"
    then show ?thesis using Cons.IH by auto
  qed
qed

lemma xlsName_Contains: "s \<in> lang xlsName \<Longrightarrow> Contains s ''-xls-''"
proof -
  assume "s \<in> lang xlsName"
  then obtain u w where "s = u @ w" "prefix ''-xls-'' w"
    unfolding xlsName_def lang.simps conc_iff[of s] in_conc_Str by blast
  then obtain v where "s = u @ ''-xls-'' @ v" by (auto simp: prefix_def)
  then show ?thesis using Contains_append[of "''-xls-''" u v] by simp
qed

lemma ehtName_prefix: "s \<in> lang ehtName \<Longrightarrow> prefix ''EHT_'' s"
  unfolding ehtName_def lang.simps(4) in_conc_Str by simp

lemma avtName_prefix: "s \<in> lang avtName \<Longrightarrow> prefix ''AVT_'' s"
  unfolding avtName_def lang.simps(4) in_conc_Str by simp

lemma DefaultPattern_only:
  "MatchString DefaultPattern s \<Longrightarrow>
     Contains s ''-xls-'' \<or> prefix ''EHT_'' s \<or> prefix ''AVT_'' s"
  by (auto simp: MatchString_lang DefaultPattern_def
      dest: xlsName_Contains ehtName_prefix avtName_prefix)

lemma isDigit_hyphen: "list_all isDigit d \<Longrightarrow> CHR ''-'' \<notin> set d"
  by (auto simp: list_all_iff isDigit_def)

lemma EHT_date:
  assumes "length d = 8" "list_all isDigit d" "e \<in> lang ext"
  shows "MatchString DefaultPattern (''EHT_'' @ d @ ''.'' @ e)"
proof -
  have "d \<in> lang ehtDate"
    using assms by (simp add: ehtDate_def Digit_def lang_Times_Atom)
  moreover have "''.'' @ e \<in> conc (lang (Lit CHR ''.'')) (lang ext)"
    using assms by (simp add: in_conc_Lit)
  ultimately have "d @ ''.'' @ e \<in> conc (lang ehtDate) (conc (lang (Lit CHR ''.'')) (lang ext))"
    by (rule concI)
  then have "''EHT_'' @ d @ ''.'' @ e \<in> lang ehtName"
    unfolding ehtName_def lang.simps(4) in_conc_Str by simp
  then show ?thesis by (simp add: MatchString_lang DefaultPattern_def)
qed

lemma AVT_year:
  assumes "length a = 2" "length b = 2" "length y = 4" "list_all isDigit (a @ b @ y)"
  shows "MatchString DefaultPattern (''AVT_'' @ a @ ''_'' @ b @ ''_'' @ y @ ''.xls'') \<longleftrightarrow>
     hd y = CHR ''2''"
proof -
  let ?s = "''AVT_'' @ a @ ''_'' @ b @ ''_'' @ y @ ''.xls''"
  have "CHR ''-'' \<notin> set ?s" using assms(4) isDigit_hyphen[of "a @ b @ y"] by auto
  then have 1: "?s \<notin> lang xlsName" using xlsName_Contains Contains_set by fastforce
  have 2: "?s \<notin> lang ehtName" using ehtName_prefix[of ?s] by auto
  obtain y0 y' where y: "y = y0 # y'" "length y' = 3" using assms(3) by (cases y) auto
  have 3: "?s \<in> lang avtName \<longleftrightarrow> hd y = CHR ''2''"
    unfolding avtName_def lang.simps(4) in_conc_Str in_conc_Times in_conc_Lit Digit_def
    using assms y by (simp add: lang_ext)
  show ?thesis using 1 2 3 by (simp add: MatchString_lang DefaultPattern_def)
qed

text \<open>
  Claim C6, as stated: the default pattern matches the file names of the form
  \<^verbatim>\<open>AVT_NN_NN_YYYY.xls\<close>. It asks for a year that begins with 2.
\<close>

theorem DefaultPattern_AVT_1999: "\<not> MatchString DefaultPattern ''AVT_01_01_1999.xls''"
  by (simp add: MatchString_eval)

text \<open>
  Claim C6, amended: the default pattern matches every file name of the forms
  \<^verbatim>\<open>EHT_YYYYMMDD.xlsx\<close> and \<^verbatim>\<open>EHT_YYYYMMDD.pdf\<close> (any eight digits), and a file name
  of the form \<^verbatim>\<open>AVT_NN_NN_YYYY.xls\<close> exactly when its year begins with the digit 2. It
  matches no name that neither contains \<^verbatim>\<open>-xls-\<close> nor begins with \<^verbatim>\<open>EHT_\<close> or
  \<^verbatim>\<open>AVT_\<close>, such as \<^verbatim>\<open>readme.txt\<close>.
\<close>

theorem DefaultPattern_forms:
  "(length d = 8 \<and> list_all isDigit d \<longrightarrow>
      MatchString DefaultPattern (''EHT_'' @ d @ ''.xlsx'') \<and>
      MatchString DefaultPattern (''EHT_'' @ d @ ''.pdf'')) \<and>
   (length a = 2 \<and> length b = 2 \<and> length y = 4 \<and> list_all isDigit (a @ b @ y) \<longrightarrow>
      (MatchString DefaultPattern (''AVT_'' @ a @ ''_'' @ b @ ''_'' @ y @ ''.xls'') \<longleftrightarrow>
       hd y = CHR ''2'')) \<and>
   (MatchString DefaultPattern s \<longrightarrow>
      Contains s ''-xls-'' \<or> prefix ''EHT_'' s \<or> prefix ''AVT_'' s) \<and>
   \<not> MatchString DefaultPattern ''readme.txt''"
proof (intro conjI impI)
  assume d: "length d = 8 \<and> list_all isDigit d"
  show "MatchString DefaultPattern (''EHT_'' @ d @ ''.xlsx'')"
    using EHT_date[of d "''xlsx''"] d by (simp add: lang_ext)
  show "MatchString DefaultPattern (''EHT_'' @ d @ ''.pdf'')"
    using EHT_date[of d "''pdf''"] d by (simp add: lang_ext)
next
  assume "length a = 2 \<and> length b = 2 \<and> length y = 4 \<and> list_all isDigit (a @ b @ y)"
  then show "MatchString DefaultPattern (''AVT_'' @ a @ ''_'' @ b @ ''_'' @ y @ ''.xls'') \<longleftrightarrow>
       hd y = CHR ''2''"
    by (intro AVT_year) simp_all
next
  assume "MatchString DefaultPattern s"
  then show "Contains s ''-xls-'' \<or> prefix ''EHT_'' s \<or> prefix ''AVT_'' s"
    by (rule DefaultPattern_only)
next
  show "\<not> MatchString DefaultPattern ''readme.txt''"
    using DefaultPattern_only[of "''readme.txt''"] by auto
qed

theorem DefaultPattern_forms_witness:
  "MatchString DefaultPattern ''EHT_20210401.xlsx'' \<and>
   MatchString DefaultPattern ''EHT_20210401.pdf'' \<and>
   MatchString DefaultPattern ''AVT_01_02_2019.xls'' \<and>
   \<not> MatchString DefaultPattern ''AVT_01_02_1019.xls'' \<and>
   prefix ''EHT_'' ''EHT_20210401.pdf''"
proof -
  note t = DefaultPattern_forms [of "''20210401''" "''01''" "''02''" "''2019''"
      "''EHT_20210401.pdf''"]
  note u = DefaultPattern_forms [of "''20210401''" "''01''" "''02''" "''1019''"
      "''EHT_20210401.pdf''"]
  have "MatchString DefaultPattern ''EHT_20210401.xlsx''"
    "MatchString DefaultPattern ''EHT_20210401.pdf''"
    "MatchString DefaultPattern ''AVT_01_02_2019.xls''"
    using t by (simp_all add: isDigit_def)
  moreover have "\<not> MatchString DefaultPattern ''AVT_01_02_1019.xls''"
    using u by (simp add: isDigit_def)
  ultimately show ?thesis by simp
qed

section \<open>Choosing the document\<close>

lemma Base_nonempty: "Base p \<noteq> []"
  by (simp add: Base_def Let_def)

lemma appendErrs_append:
  "appendErrs lost (appendErrs lost s xs) ys = appendErrs lost s (xs @ ys)"
proof (induction xs arbitrary: s)
  case Nil
  then show ?case by (cases s) simp
next
  case (Cons x xs)
  then show ?case by (cases s) simp
qed



lemma task_no_fatal:
  "no_fatal p \<Longrightarrow> length ch \<le> 1024 \<Longrightarrow>
   task lost pat p (errs, ch) =
     (None, appendErrs lost errs (probe_errors p),
      take 1024 (ch @ (case qualifying pat p of None \<Rightarrow> [] | Some loc \<Rightarrow> [loc])))"
  by (cases p; cases errs)
    (auto simp: no_fatal_def probe_errors_def qualifying_def trySend_def Base_nonempty Let_def)

lemma take_take_append: "take n (take n xs @ ys) = take n (xs @ ys)"
  by (cases "length xs \<le> n") (simp_all add: min_def)

lemma runTasks_no_fatal:
  "list_all no_fatal ps \<Longrightarrow> length ch \<le> 1024 \<Longrightarrow>
   runTasks lost pat ps (None, errs, ch) =
     (None, appendErrs lost errs (concat (map probe_errors ps)),
      take 1024 (ch @ List.map_filter (qualifying pat) ps))"
proof (induction ps arbitrary: errs ch)
  case Nil
  then show ?case by (cases errs) simp
next
  case (Cons p ps)
  let ?q = "case qualifying pat p of None \<Rightarrow> [] | Some loc \<Rightarrow> [loc]"
  let ?e = "appendErrs lost errs (probe_errors p)"
  have t: "task lost pat p (errs, ch) = (None, ?e, take 1024 (ch @ ?q))"
    using Cons.prems by (simp add: task_no_fatal)
  have "runTasks lost pat (p # ps) (None, errs, ch) =
      runTasks lost pat ps (None, ?e, take 1024 (ch @ ?q))"
    by (simp add: t)
  also have "\<dots> = (None, appendErrs lost ?e (concat (map probe_errors ps)),
      take 1024 (take 1024 (ch @ ?q) @ List.map_filter (qualifying pat) ps))"
    using Cons.prems by (intro Cons.IH) simp_all
  also have "take 1024 (take 1024 (ch @ ?q) @ List.map_filter (qualifying pat) ps) =
      take 1024 (ch @ List.map_filter (qualifying pat) (p # ps))"
    by (simp only: take_take_append map_filter_Cons append_assoc)
  finally show ?case by (simp add: appendErrs_append)
qed





lemma mset_map_filter: "mset xs = mset ys \<Longrightarrow> mset (List.map_filter f xs) = mset (List.map_filter f ys)"
  by (simp add: List.map_filter_def)

lemma map_filter_map: "List.map_filter f (map g xs) = List.map_filter (f \<circ> g) xs"
  by (simp add: List.map_filter_def filter_map comp_def)

lemma sorted_wrt_last:
  "sorted_wrt P xs \<Longrightarrow> x \<in> set xs \<Longrightarrow> (\<And>y. P y y) \<Longrightarrow> P x (last xs)"
  by (induction xs) auto

lemma SearchXLSURL_run:
  assumes "searchURL \<noteq> DefaultXLSXURL" "page env = PageTokens toks None"
    and "ps = map (probe env) (schedule env (concat (map hrefs toks)))"
    and "list_all no_fatal ps"
    and "results = take 1024 (List.map_filter (qualifying pat) ps)"
    and "errs = snd (appendErrs (lostAppend env) (0, []) (concat (map probe_errors ps)))"
  shows "SearchXLSURL env searchURL pat =
    (if results = [] then Inl (Errorf_w_w ErrNotFound (errors_Join errs))
     else Inr (last (sortSlice env results)))"
proof -
  obtain k where k: "appendErrs (lostAppend env) (0, []) (concat (map probe_errors ps)) = (k, errs)"
    using assms(6) by (cases "appendErrs (lostAppend env) (0, []) (concat (map probe_errors ps))") simp
  have "runTasks (lostAppend env) pat ps (None, (0, []), []) = (None, (k, errs), results)"
    using runTasks_no_fatal[OF assms(4), of "[]" "lostAppend env" pat "(0, [])"] k assms(5) by simp
  then show ?thesis using assms(1,2,3) by (simp add: SearchXLSURL_def)
qed

lemma Base_locs: "Base old_loc = ''EHT_20240102.pdf''" "Base new_loc = ''EHT_20250102.pdf''"
  by (simp_all add: Base_def old_loc_def new_loc_def)

lemma hrefs_anchor: "hrefs (anchor old_href) = [old_href]" "hrefs (anchor new_href) = [new_href]"
  "hrefs OtherToken = []"
  by (simp_all add: hrefs_def anchor_def old_href_def new_href_def)

lemma href_neq: "old_href \<noteq> new_href"
  by (simp add: old_href_def new_href_def)

lemma qualifying_redirects:
  "qualifying DefaultPattern (redirects old_href) = Some old_loc"
  "qualifying DefaultPattern (redirects new_href) = Some new_loc"
proof -
  have "MatchString DefaultPattern ''EHT_20240102.pdf''" "MatchString DefaultPattern ''EHT_20250102.pdf''"
    by (simp_all add: MatchString_eval)
  then show "qualifying DefaultPattern (redirects old_href) = Some old_loc"
    "qualifying DefaultPattern (redirects new_href) = Some new_loc"
    by (simp_all add: qualifying_def redirects_def href_neq Base_locs)
qed

lemma sortSlice_ok_sort_key: "sortSlice env = sort_key Base \<Longrightarrow> sortSlice_ok env"
proof -
  assume e: "sortSlice env = sort_key Base"
  have "sorted_wrt (\<lambda>a b. Base a \<le> Base b) (sort_key Base xs)" for xs
    using sorted_sort_key[of Base xs] by (simp add: sorted_map)
  then show ?thesis by (simp add: sortSlice_ok_def e)
qed

lemma DefaultURL_neq: "DefaultURL \<noteq> DefaultXLSXURL"
  by (simp add: DefaultURL_def DefaultXLSXURL_def)

lemma Base_less: "Base old_loc < Base new_loc"
  by (simp add: Base_locs)

lemma concat_replicate_single: "concat (replicate n [a]) = replicate n a"
  by (induction n) simp_all

lemma map_filter_replicate:
  "f x = Some y \<Longrightarrow> List.map_filter f (replicate n x) = replicate n y"
  by (induction n) simp_all

lemma sort_key_replicate: "sort_key f (replicate n a) = replicate n a"
proof (induction n)
  case 0
  then show ?case by simp
next
  case (Suc n)
  then show ?case by (cases n) simp_all
qed

text \<open>
  Claim C4, as stated: whenever two or more candidates qualify, the URL returned is
  the qualifying one with the largest file name. The channel keeps the first 1024
  results only: of 1025 qualifying candidates whose tasks finish in the order of the
  page, the last one has the largest file name, and the URL returned is another one.
\<close>

theorem SearchXLSURL_overflow:
  "SearchXLSURL web_many DefaultURL DefaultPattern = Inr old_loc \<and>
   new_href \<in> set (concat (map hrefs (replicate 1024 (anchor old_href) @ [anchor new_href]))) \<and>
   qualifying DefaultPattern (probe web_many new_href) = Some new_loc \<and>
   Base old_loc < Base new_loc"
proof -
  let ?ps = "replicate 1024 (redirects old_href) @ [redirects new_href]"
  have cs: "concat (map hrefs (replicate 1024 (anchor old_href) @ [anchor new_href])) =
      replicate 1024 old_href @ [new_href]"
    by (simp add: hrefs_anchor concat_replicate_single)
  have nf: "list_all no_fatal ?ps"
    by (simp add: list_all_iff redirects_def no_fatal_def)
  have mf: "replicate 1024 old_loc = take 1024 (List.map_filter (qualifying DefaultPattern) ?ps)"
    by (simp add: map_filter_append map_filter_replicate qualifying_redirects)
  have pg: "page web_many = PageTokens (replicate 1024 (anchor old_href) @ [anchor new_href]) None"
    by (simp add: web_many_def)
  have ps: "?ps = map (probe web_many) (schedule web_many
      (concat (map hrefs (replicate 1024 (anchor old_href) @ [anchor new_href]))))"
    unfolding cs by (simp add: web_many_def)
  have "SearchXLSURL web_many DefaultURL DefaultPattern =
      (if replicate 1024 old_loc = []
       then Inl (Errorf_w_w ErrNotFound (errors_Join
              (snd (appendErrs (lostAppend web_many) (0, []) (concat (map probe_errors ?ps))))))
       else Inr (last (sortSlice web_many (replicate 1024 old_loc))))"
    by (rule SearchXLSURL_run[OF DefaultURL_neq pg ps nf mf refl])
  then have "SearchXLSURL web_many DefaultURL DefaultPattern = Inr old_loc"
    by (simp add: web_many_def sort_key_replicate)
  moreover have "new_href \<in> set (concat (map hrefs (replicate 1024 (anchor old_href) @ [anchor new_href])))"
    unfolding cs by simp
  moreover have "qualifying DefaultPattern (probe web_many new_href) = Some new_loc"
    by (simp add: web_many_def qualifying_redirects)
  ultimately show ?thesis using Base_less by blast
qed

text \<open>
  Claim C4, amended: whenever two or more candidates qualify, and not more than 1024,
  \<^verbatim>\<open>SearchXLSURL\<close> returns the location of a qualifying candidate whose file name is
  not below the file name of any qualifying candidate. This is for a search that gets to
  the selection: the URL is not the default spreadsheet URL, the index page is read to
  its end, and no task fails to build its request.
\<close>

theorem SearchXLSURL_largest:
  assumes "searchURL \<noteq> DefaultXLSXURL"
    and "page env = PageTokens toks None"
    and "cs = concat (map hrefs toks)"
    and "mset (schedule env cs) = mset cs"
    and "sortSlice_ok env"
    and "\<forall>c\<in>set cs. no_fatal (probe env c)"
    and "qs = List.map_filter (\<lambda>c. qualifying pat (probe env c)) cs"
    and "2 \<le> length qs" and "length qs \<le> 1024"
  shows "\<exists>u. SearchXLSURL env searchURL pat = Inr u \<and> u \<in> set qs \<and>
     (\<forall>v\<in>set qs. Base v \<le> Base u)"
proof -
  define ps where "ps = map (probe env) (schedule env cs)"
  define rs where "rs = List.map_filter (qualifying pat) ps"
  have s: "set (schedule env cs) = set cs" using assms(4) by (rule mset_eq_setD)
  have nf: "list_all no_fatal ps"
    using assms(6) s by (auto simp: ps_def list_all_iff)
  have m: "mset rs = mset qs"
    unfolding rs_def ps_def assms(7) map_filter_map comp_def
    by (rule mset_map_filter) (rule assms(4))
  then have l: "length rs = length qs" by (metis size_mset)
  then have ne: "rs \<noteq> []" using assms(8) by auto
  have t: "rs = take 1024 (List.map_filter (qualifying pat) ps)"
    using l assms(9) by (simp add: rs_def)
  have p: "ps = map (probe env) (schedule env (concat (map hrefs toks)))"
    by (simp add: ps_def assms(3))
  have r: "SearchXLSURL env searchURL pat = Inr (last (sortSlice env rs))"
    using SearchXLSURL_run[OF assms(1,2) p nf t refl] ne by simp
  have ok: "mset (sortSlice env rs) = mset rs"
    "sorted_wrt (\<lambda>a b. Base a \<le> Base b) (sortSlice env rs)"
    using assms(5) by (simp_all add: sortSlice_ok_def)
  then have st: "set (sortSlice env rs) = set qs"
    using m by (metis mset_eq_setD)
  then have ne': "sortSlice env rs \<noteq> []" using ne m by (metis ok(1) mset_zero_iff)
  have "last (sortSlice env rs) \<in> set qs" using ne' st last_in_set by blast
  moreover have "Base v \<le> Base (last (sortSlice env rs))" if "v \<in> set qs" for v
    using sorted_wrt_last[OF ok(2), of v] that st by simp
  ultimately show ?thesis using r by blast
qed

theorem SearchXLSURL_largest_witness:
  "SearchXLSURL web_two DefaultURL DefaultPattern = Inr new_loc \<and>
   List.map_filter (\<lambda>c. qualifying DefaultPattern (probe web_two c)) [old_href, new_href] =
     [old_loc, new_loc] \<and>
   Base old_loc < Base new_loc"
proof -
  have cs: "[old_href, new_href] = concat (map hrefs [anchor old_href, OtherToken, anchor new_href])"
    by (simp add: hrefs_anchor)
  have qs: "[old_loc, new_loc] =
      List.map_filter (\<lambda>c. qualifying DefaultPattern (probe web_two c)) [old_href, new_href]"
    by (simp add: web_two_def qualifying_redirects)
  have "\<exists>u. SearchXLSURL web_two DefaultURL DefaultPattern = Inr u \<and> u \<in> set [old_loc, new_loc] \<and>
     (\<forall>v\<in>set [old_loc, new_loc]. Base v \<le> Base u)"
  proof (rule SearchXLSURL_largest [OF DefaultURL_neq _ cs _ _ _ qs])
    show "page web_two = PageTokens [anchor old_href, OtherToken, anchor new_href] None"
      by (simp add: web_two_def)
    show "mset (schedule web_two [old_href, new_href]) = mset [old_href, new_href]"
      by (simp add: web_two_def)
    show "sortSlice_ok web_two" by (rule sortSlice_ok_sort_key) (simp add: web_two_def)
    show "\<forall>c\<in>set [old_href, new_href]. no_fatal (probe web_two c)"
      by (simp add: web_two_def redirects_def no_fatal_def)
  qed simp_all
  then obtain u where u: "SearchXLSURL web_two DefaultURL DefaultPattern = Inr u"
    "u = old_loc \<or> u = new_loc" "Base new_loc \<le> Base u"
    by auto
  then have "u = new_loc" using Base_less by auto
  then show ?thesis using u(1) qs Base_less by simp
qed




end
